theory Spec2Isabelle
  imports Main "HOL-Library.AList" "HOL-Library.Multiset"
begin

section \<open>Data model of tensorflow/core/framework/cancellation.cc\<close>

text \<open>
  A cancellation token is an integer. The width of the C++ type is declared in the
  header, which is not part of the sources; the unbounded integers are used.
\<close>

type_synonym CancellationToken = int

text \<open>Managers live in a store and are referred to by their address.\<close>

type_synonym addr = nat

text \<open>
  A callback is either supplied by a collaborator, identified by a number (what its body
  does to the data of the collaborator is outside the repository; that it was invoked is
  recorded in a log), or it is the closure \<^verbatim>\<open>[this]() { this->StartCancel(); }\<close>
  that the constructor at line 38 registers with the parent.
\<close>

datatype CancelCallback = External nat | CancelChild addr

text \<open>
  The lazily allocated block \<^verbatim>\<open>state_\<close>: the registry (a FlatMap, kept as an association
  list with one entry for each key) and the notification of the pass (True once
  \<^verbatim>\<open>Notify\<close> was called). The order in which a loop visits a FlatMap is not specified;
  the order of the list stands for it, and the theorems about what a pass invokes count
  invocations and do not mention their order.
\<close>

record State =
  callbacks :: "(CancellationToken \<times> CancelCallback) list"
  cancelled_notification :: bool

record CancellationManager =
  is_cancelling :: bool
  is_cancelled :: bool
  next_cancellation_token :: CancellationToken
  state :: "State option"
  parent :: "addr option"
  parent_token :: CancellationToken

datatype ManagerState = Idle | Cancelling | Cancelled

definition manager_state :: "CancellationManager \<Rightarrow> ManagerState" where
  "manager_state m =
     (if is_cancelled m then Cancelled else if is_cancelling m then Cancelling else Idle)"

definition registry :: "CancellationManager \<Rightarrow> (CancellationToken \<times> CancelCallback) list" where
  "registry m = (case state m of None \<Rightarrow> [] | Some s \<Rightarrow> callbacks s)"

definition HasBeenNotified :: "CancellationManager \<Rightarrow> bool" where
  "HasBeenNotified m = (case state m of None \<Rightarrow> False | Some s \<Rightarrow> cancelled_notification s)"

datatype stuck = Finished | Blocked | UseAfterFree | CheckFailed

section \<open>The critical sections of one manager\<close>

text \<open>Lines 26 to 29: the constructor of a manager without a parent. The field
  \<^verbatim>\<open>parent_token_\<close> is read only when \<^verbatim>\<open>parent_\<close> is set.\<close>

definition new_manager :: CancellationManager where
  "new_manager =
     \<lparr>is_cancelling = False, is_cancelled = False, next_cancellation_token = 0,
      state = None, parent = None, parent_token = 0\<rparr>"

text \<open>Modelled from the spec: \<^verbatim>\<open>get_cancellation_token\<close> is defined in the header, which
  is missing. Under the lock it returns the current counter value and increments it.\<close>

definition get_cancellation_token ::
  "CancellationManager \<Rightarrow> CancellationToken \<times> CancellationManager" where
  "get_cancellation_token m =
     (next_cancellation_token m,
      m\<lparr>next_cancellation_token := next_cancellation_token m + 1\<rparr>)"

text \<open>Modelled from the spec: \<^verbatim>\<open>IsCancelled\<close> is defined in the header, which is missing.
  It reads the terminal flag.\<close>

definition IsCancelled :: "CancellationManager \<Rightarrow> bool" where
  "IsCancelled m = is_cancelled m"

text \<open>Lines 76 to 88. The \<^verbatim>\<open>DCHECK_LT\<close> of line 78 asserts that the token was issued by
  this manager; a call that breaks it stops there, as it does in a build that checks.\<close>

definition RegisterCallback ::
  "CancellationToken \<Rightarrow> CancelCallback \<Rightarrow> CancellationManager
     \<Rightarrow> stuck + (bool \<times> CancellationManager)" where
  "RegisterCallback token callback m =
     (if \<not> token < next_cancellation_token m then Inl CheckFailed
      else
        let should_register = (\<not> is_cancelled m \<and> \<not> is_cancelling m) in
        if should_register then
          let s = (case state m of
                     None \<Rightarrow> \<lparr>callbacks = [], cancelled_notification = False\<rparr>
                   | Some s \<Rightarrow> s)
          in Inr (should_register,
                  m\<lparr>state := Some (s\<lparr>callbacks := AList.update token callback (callbacks s)\<rparr>)\<rparr>)
        else Inr (should_register, m))"

text \<open>The erasure of lines 108 to 110 and 121 to 123.\<close>

definition erase_callback :: "CancellationToken \<Rightarrow> CancellationManager \<Rightarrow> CancellationManager" where
  "erase_callback token m =
     (case state m of
        None \<Rightarrow> m
      | Some s \<Rightarrow> m\<lparr>state := Some (s\<lparr>callbacks := AList.delete token (callbacks s)\<rparr>)\<rparr>)"

text \<open>Lines 90 to 114 up to the wait of line 104: the call either returns, or it has
  captured the notification of the pass and goes on to wait for it.\<close>

datatype deregister_outcome = Return bool | WaitForNotification

definition DeregisterCallback_locked ::
  "CancellationToken \<Rightarrow> CancellationManager \<Rightarrow> deregister_outcome \<times> CancellationManager" where
  "DeregisterCallback_locked token m =
     (if is_cancelled m then (Return False, m)
      else if is_cancelling m then
        (case state m of
           Some s \<Rightarrow> (WaitForNotification, m)
         | None \<Rightarrow> (Return False, m))
      else (Return True, erase_callback token m))"

text \<open>Lines 116 to 126.\<close>

definition TryDeregisterCallback ::
  "CancellationToken \<Rightarrow> CancellationManager \<Rightarrow> bool \<times> CancellationManager" where
  "TryDeregisterCallback token m =
     (if is_cancelled m \<or> is_cancelling m then (False, m)
      else (True, erase_callback token m))"

text \<open>Lines 47 to 57: the first critical section of \<^verbatim>\<open>StartCancel\<close>. It returns None when
  the call returns at line 50, and otherwise the local \<^verbatim>\<open>callbacks_to_run\<close> together with
  whether a notification was captured.\<close>

definition StartCancel_locked ::
  "CancellationManager
     \<Rightarrow> ((CancellationToken \<times> CancelCallback) list \<times> bool) option \<times> CancellationManager" where
  "StartCancel_locked m =
     (if is_cancelled m \<or> is_cancelling m then (None, m)
      else
        (case state m of
           None \<Rightarrow> (Some ([], False), m\<lparr>is_cancelling := True\<rparr>)
         | Some s \<Rightarrow>
             (Some (callbacks s, True),
              m\<lparr>is_cancelling := True, state := Some (s\<lparr>callbacks := []\<rparr>)\<rparr>)))"

text \<open>Lines 66 to 70: the second critical section of \<^verbatim>\<open>StartCancel\<close>.\<close>

definition StartCancel_finish :: "CancellationManager \<Rightarrow> CancellationManager" where
  "StartCancel_finish m = m\<lparr>is_cancelling := False, is_cancelled := True\<rparr>"

text \<open>Lines 71 to 73, for a captured notification.\<close>

definition Notify :: "CancellationManager \<Rightarrow> CancellationManager" where
  "Notify m =
     (case state m of
        None \<Rightarrow> m
      | Some s \<Rightarrow> m\<lparr>state := Some (s\<lparr>cancelled_notification := True\<rparr>)\<rparr>)"

section \<open>The store, the calls and the frames of a thread\<close>

text \<open>
  The store holds the managers by address; a destroyed manager leaves None behind and
  addresses are never used again. Two logs record what the collaborators observe: every
  invocation \<^verbatim>\<open>key_and_value.second()\<close> of line 64, with the manager, the key and the
  callback, and every token handed out.
\<close>

record world =
  heap :: "CancellationManager option list"
  invoked :: "(addr \<times> CancellationToken \<times> CancelCallback) list"
  issued :: "(addr \<times> CancellationToken) list"

definition manager_at :: "world \<Rightarrow> addr \<Rightarrow> CancellationManager option" where
  "manager_at w a = (if a < length (heap w) then heap w ! a else None)"

definition set_manager :: "addr \<Rightarrow> CancellationManager \<Rightarrow> world \<Rightarrow> world" where
  "set_manager a m w = w\<lparr>heap := (heap w)[a := Some m]\<rparr>"

definition with_manager ::
  "world \<Rightarrow> addr \<Rightarrow> (CancellationManager \<Rightarrow> stuck + 'a) \<Rightarrow> stuck + 'a" where
  "with_manager w a f = (case manager_at w a of None \<Rightarrow> Inl UseAfterFree | Some m \<Rightarrow> f m)"

text \<open>
  The operations of the interface: the two constructors (\<open>New\<close>), the destructor
  (\<open>Delete\<close>), \<^verbatim>\<open>get_cancellation_token\<close>, \<^verbatim>\<open>RegisterCallback\<close>, \<^verbatim>\<open>DeregisterCallback\<close>,
  \<^verbatim>\<open>TryDeregisterCallback\<close>, \<^verbatim>\<open>StartCancel\<close> (\<open>Cancel\<close>) and \<^verbatim>\<open>IsCancelled\<close> (\<open>Query\<close>).
\<close>

datatype call =
    New "addr option"
  | Delete addr
  | GetToken addr
  | Register addr CancellationToken CancelCallback
  | Deregister addr CancellationToken
  | TryDeregister addr CancellationToken
  | Cancel addr
  | Query addr

datatype retval = RVoid | RBool bool | RToken CancellationToken | RPtr addr

text \<open>
  A thread is a stack of frames. A frame is a call that has not started, or the rest of
  a function of the source after one of its critical sections:
  \<^item> \<open>Ctor_register p t\<close>: line 37, after the initialisers of lines 32 to 36;
  \<^item> \<open>StartCancel_loop a cbs n\<close>: the loop of lines 63 to 65 of the manager \<open>a\<close>, with the
    entries of \<^verbatim>\<open>callbacks_to_run\<close> still to be invoked and whether a notification was
    captured;
  \<^item> \<open>External_body x\<close>: the body of a collaborator's callback, running;
  \<^item> \<open>StartCancel_notify a\<close>: lines 71 to 73;
  \<^item> \<open>DeregisterCallback_wait a\<close>: the wait of line 104;
  \<^item> \<open>Dtor_state a\<close>: lines 132 to 134 of the destructor;
  \<^item> \<open>Dtor_free a\<close>: the end of the destructor, where the object ceases to exist.
\<close>

datatype frame =
    Call call
  | Ctor_register addr CancellationToken
  | StartCancel_loop addr "(CancellationToken \<times> CancelCallback) list" bool
  | External_body nat
  | StartCancel_notify addr
  | DeregisterCallback_wait addr
  | Dtor_state addr
  | Dtor_free addr

type_synonym result = "stuck + (world \<times> frame list \<times> retval option)"

text \<open>Line 64: what invoking a callback runs.\<close>

fun invoke :: "CancelCallback \<Rightarrow> frame" where
  "invoke (External x) = External_body x"
| "invoke (CancelChild c) = Call (Cancel c)"

text \<open>The first step of each operation.\<close>

fun step_call :: "world \<Rightarrow> call \<Rightarrow> frame list \<Rightarrow> result" where
  "step_call w (New None) stk =
     Inr (w\<lparr>heap := heap w @ [Some new_manager]\<rparr>, stk, Some (RPtr (length (heap w))))"
| "step_call w (New (Some p)) stk =
     with_manager w p (\<lambda>pm.
       case get_cancellation_token pm of (t, pm') \<Rightarrow>
         Inr ((set_manager p pm' w)\<lparr>issued := issued w @ [(p, t)]\<rparr>,
              Ctor_register p t # stk, None))"
| "step_call w (Delete a) stk =
     with_manager w a (\<lambda>m.
       case parent m of
         None \<Rightarrow> Inr (w, Dtor_state a # stk, None)
       | Some p \<Rightarrow> Inr (w, Call (Deregister p (parent_token m)) # Dtor_state a # stk, None))"
| "step_call w (GetToken a) stk =
     with_manager w a (\<lambda>m.
       case get_cancellation_token m of (t, m') \<Rightarrow>
         Inr ((set_manager a m' w)\<lparr>issued := issued w @ [(a, t)]\<rparr>, stk, Some (RToken t)))"
| "step_call w (Register a token callback) stk =
     with_manager w a (\<lambda>m.
       case RegisterCallback token callback m of
         Inl e \<Rightarrow> Inl e
       | Inr (b, m') \<Rightarrow> Inr (set_manager a m' w, stk, Some (RBool b)))"
| "step_call w (Deregister a token) stk =
     with_manager w a (\<lambda>m.
       case DeregisterCallback_locked token m of
         (Return b, m') \<Rightarrow> Inr (set_manager a m' w, stk, Some (RBool b))
       | (WaitForNotification, m') \<Rightarrow>
           Inr (set_manager a m' w, DeregisterCallback_wait a # stk, None))"
| "step_call w (TryDeregister a token) stk =
     with_manager w a (\<lambda>m.
       case TryDeregisterCallback token m of
         (b, m') \<Rightarrow> Inr (set_manager a m' w, stk, Some (RBool b)))"
| "step_call w (Cancel a) stk =
     with_manager w a (\<lambda>m.
       case StartCancel_locked m of
         (None, m') \<Rightarrow> Inr (w, stk, Some RVoid)
       | (Some (cbs, n), m') \<Rightarrow> Inr (set_manager a m' w, StartCancel_loop a cbs n # stk, None))"
| "step_call w (Query a) stk =
     with_manager w a (\<lambda>m. Inr (w, stk, Some (RBool (IsCancelled m))))"

text \<open>One step of a thread: the frame on top of its stack runs up to the end of its next
  critical section, up to its next call, or up to its return.\<close>

fun step :: "world \<Rightarrow> frame list \<Rightarrow> result" where
  "step w [] = Inl Finished"
| "step w (Call c # stk) = step_call w c stk"
| "step w (Ctor_register p t # stk) =
     with_manager w p (\<lambda>pm.
       case RegisterCallback t (CancelChild (length (heap w))) pm of
         Inl e \<Rightarrow> Inl e
       | Inr (registered, pm') \<Rightarrow>
           Inr ((set_manager p pm' w)
                  \<lparr>heap := heap (set_manager p pm' w) @
                     [Some \<lparr>is_cancelling = False, is_cancelled = \<not> registered,
                            next_cancellation_token = 0, state = None,
                            parent = Some p, parent_token = t\<rparr>]\<rparr>,
                stk, Some (RPtr (length (heap w)))))"
| "step w (StartCancel_loop a [] n # stk) =
     with_manager w a (\<lambda>m.
       Inr (set_manager a (StartCancel_finish m) w,
            if n then StartCancel_notify a # stk else stk,
            if n then None else Some RVoid))"
| "step w (StartCancel_loop a (kv # cbs) n # stk) =
     Inr (w\<lparr>invoked := invoked w @ [(a, kv)]\<rparr>,
          invoke (snd kv) # StartCancel_loop a cbs n # stk, None)"
| "step w (External_body x # stk) = Inr (w, stk, Some RVoid)"
| "step w (StartCancel_notify a # stk) =
     with_manager w a (\<lambda>m. Inr (set_manager a (Notify m) w, stk, Some RVoid))"
| "step w (DeregisterCallback_wait a # stk) =
     with_manager w a (\<lambda>m.
       if HasBeenNotified m then Inr (w, stk, Some (RBool False)) else Inl Blocked)"
| "step w (Dtor_state a # stk) =
     with_manager w a (\<lambda>m.
       if state m \<noteq> None then Inr (w, Call (Cancel a) # Dtor_free a # stk, None)
       else Inr (w, Dtor_free a # stk, None))"
| "step w (Dtor_free a # stk) =
     with_manager w a (\<lambda>m. Inr (w\<lparr>heap := (heap w)[a := None]\<rparr>, stk, Some RVoid))"

section \<open>Threads running together\<close>

text \<open>
  A configuration is the store and the stacks of the threads. Threads take turns: one
  step of a thread is one critical section, one call or one return, and the steps of the
  threads interleave in any order. A thread with an empty stack may begin any operation
  with any arguments, and so may the body of a collaborator's callback while it runs, on
  any manager, the cancelling one included. A thread that waits for a notification that is not set, or that
  has stopped on a failed check or on a destroyed manager, takes no step.
\<close>

type_synonym config = "world \<times> frame list list"

definition initial :: config where
  "initial = (\<lparr>heap = [], invoked = [], issued = []\<rparr>, [])"

inductive cstep :: "config \<Rightarrow> config \<Rightarrow> bool" where
  spawn: "cstep (w, ts) (w, ts @ [[]])"
| begin_call: "i < length ts \<Longrightarrow> ts ! i = [] \<Longrightarrow> cstep (w, ts) (w, ts[i := [Call c]])"
| callback_call: "i < length ts \<Longrightarrow> ts ! i = External_body x # rest \<Longrightarrow>
        cstep (w, ts) (w, ts[i := Call c # External_body x # rest])"
| thread_step: "i < length ts \<Longrightarrow> step w (ts ! i) = Inr (w', stk', r) \<Longrightarrow>
        cstep (w, ts) (w', ts[i := stk'])"

inductive reachable :: "config \<Rightarrow> bool" where
  reach_initial: "reachable initial"
| reach_step: "reachable c \<Longrightarrow> cstep c c' \<Longrightarrow> reachable c'"

section \<open>Running a thread to completion\<close>

text \<open>
  The work left in a configuration: every frame has a weight, and a manager that is
  still idle counts for the pass it may yet run. Every step of a thread decreases it.
\<close>

fun call_weight :: "call \<Rightarrow> nat" where
  "call_weight (New None) = 4"
| "call_weight (New (Some p)) = 7"
| "call_weight (Delete a) = 6"
| "call_weight (Register a t c) = 3"
| "call_weight (Deregister a t) = 2"
| "call_weight _ = 1"

fun frame_weight :: "frame \<Rightarrow> nat" where
  "frame_weight (Call c) = call_weight c"
| "frame_weight (Ctor_register p t) = 6"
| "frame_weight (StartCancel_loop a cbs n) = 2 + 2 * length cbs"
| "frame_weight (Dtor_state a) = 3"
| "frame_weight _ = 1"

definition potential :: "CancellationManager option \<Rightarrow> nat" where
  "potential om =
     (case om of
        None \<Rightarrow> 0
      | Some m \<Rightarrow> if is_cancelled m \<or> is_cancelling m then 0 else 3 + 2 * length (registry m))"

definition heap_work :: "world \<Rightarrow> nat" where
  "heap_work w = sum_list (map potential (heap w))"

definition work :: "world \<Rightarrow> frame list \<Rightarrow> nat" where
  "work w stk = heap_work w + sum_list (map frame_weight stk)"

lemma potential_update:
  "a < length h \<Longrightarrow>
   sum_list (map potential (h[a := x])) + potential (h ! a) = sum_list (map potential h) + potential x"
proof (induction h arbitrary: a)
  case Nil then show ?case by simp
next
  case (Cons y h)
  then show ?case by (cases a) (auto simp: add.assoc)
qed

lemma heap_work_set_manager:
  assumes "manager_at w a = Some m"
  shows "heap_work (set_manager a m' w) = heap_work w - potential (Some m) + potential (Some m')"
    and "potential (Some m) \<le> heap_work w"
proof -
  from assms have a: "a < length (heap w)" and m: "heap w ! a = Some m"
    by (auto simp: manager_at_def split: if_splits)
  from a have "potential (heap w ! a) \<in> set (map potential (heap w))"
    by simp
  then have "potential (heap w ! a) \<le> sum_list (map potential (heap w))"
    by (rule member_le_sum_list) simp
  with m show le: "potential (Some m) \<le> heap_work w"
    by (simp add: heap_work_def)
  from potential_update[OF a, of "Some m'"] m le
  show "heap_work (set_manager a m' w) = heap_work w - potential (Some m) + potential (Some m')"
    by (simp add: heap_work_def set_manager_def)
qed

lemma heap_work_free:
  "heap_work (w\<lparr>heap := (heap w)[a := None]\<rparr>) \<le> heap_work w"
proof (cases "a < length (heap w)")
  case True
  then show ?thesis
    using potential_update[of a "heap w" None] by (simp add: heap_work_def potential_def)
next
  case False
  then show ?thesis by (simp add: heap_work_def list_update_beyond)
qed

lemma heap_work_simps [simp]:
  "heap_work (w\<lparr>issued := x\<rparr>) = heap_work w"
  "heap_work (w\<lparr>invoked := y\<rparr>) = heap_work w"
  "heap_work (w\<lparr>heap := heap w @ [om]\<rparr>) = heap_work w + potential om"
  by (simp_all add: heap_work_def)

lemma invoke_weight: "frame_weight (invoke cb) = 1"
  by (cases cb) auto

lemma length_update_le: "length (AList.update k v al) \<le> Suc (length al)"
  by (induction al) auto

lemma potential_get_cancellation_token:
  "get_cancellation_token m = (t, m') \<Longrightarrow> potential (Some m') = potential (Some m)"
  by (auto simp: get_cancellation_token_def potential_def registry_def)

lemma potential_RegisterCallback:
  "RegisterCallback t cb m = Inr (b, m') \<Longrightarrow> potential (Some m') \<le> potential (Some m) + 2"
  using length_update_le[of t cb "registry m"]
  by (auto simp: RegisterCallback_def potential_def registry_def Let_def
      split: if_splits option.splits)

lemma potential_erase_callback:
  "potential (Some (erase_callback t m)) \<le> potential (Some m)"
  using length_delete_le[of t "registry m"]
  by (auto simp: erase_callback_def potential_def registry_def split: option.splits)

lemma potential_DeregisterCallback_locked:
  "DeregisterCallback_locked t m = (out, m') \<Longrightarrow> potential (Some m') \<le> potential (Some m)"
  using potential_erase_callback[of t m]
  by (auto simp: DeregisterCallback_locked_def split: if_splits option.splits)

lemma potential_TryDeregisterCallback:
  "TryDeregisterCallback t m = (b, m') \<Longrightarrow> potential (Some m') \<le> potential (Some m)"
  using potential_erase_callback[of t m]
  by (auto simp: TryDeregisterCallback_def split: if_splits)

lemma potential_StartCancel_locked:
  "StartCancel_locked m = (Some (cbs, n), m') \<Longrightarrow>
   potential (Some m) = 3 + 2 * length cbs \<and> potential (Some m') = 0"
  by (auto simp: StartCancel_locked_def potential_def registry_def split: if_splits option.splits)

lemma potential_StartCancel_finish: "potential (Some (StartCancel_finish m)) = 0"
  by (simp add: StartCancel_finish_def potential_def)

lemma potential_Notify: "potential (Some (Notify m)) = potential (Some m)"
  by (auto simp: Notify_def potential_def registry_def split: option.splits)

lemma step_call_decreases:
  assumes "step_call w c stk = Inr (w', stk', r)"
  shows "work w' stk' < work w (Call c # stk)"
proof (cases c)
  case (New po)
  show ?thesis
  proof (cases po)
    case None
    with New assms show ?thesis
      by (auto simp: potential_def new_manager_def registry_def work_def)
  next
    case (Some p)
    with New assms obtain m where m: "manager_at w p = Some m"
      by (auto simp: with_manager_def split: option.splits)
    with Some New assms heap_work_set_manager(2)[OF m] show ?thesis
      by (auto simp: with_manager_def work_def heap_work_set_manager(1)[OF m]
          split: prod.splits dest!: potential_get_cancellation_token)
  qed
next
  case (Delete a)
  then show ?thesis using assms
    by (auto simp: with_manager_def work_def split: option.splits)
next
  case (GetToken a)
  with assms obtain m where m: "manager_at w a = Some m"
    by (auto simp: with_manager_def split: option.splits)
  with GetToken assms heap_work_set_manager(2)[OF m] show ?thesis
    by (auto simp: with_manager_def work_def heap_work_set_manager(1)[OF m]
        split: prod.splits dest!: potential_get_cancellation_token)
next
  case (Register a t cb)
  with assms obtain m where m: "manager_at w a = Some m"
    by (auto simp: with_manager_def split: option.splits)
  with Register assms heap_work_set_manager(2)[OF m] show ?thesis
    by (auto simp: with_manager_def work_def heap_work_set_manager(1)[OF m]
        split: prod.splits sum.splits dest!: potential_RegisterCallback)
next
  case (Deregister a t)
  with assms obtain m where m: "manager_at w a = Some m"
    by (auto simp: with_manager_def split: option.splits)
  with Deregister assms heap_work_set_manager(2)[OF m] show ?thesis
    by (auto simp: with_manager_def work_def heap_work_set_manager(1)[OF m]
        split: prod.splits deregister_outcome.splits dest!: potential_DeregisterCallback_locked)
next
  case (TryDeregister a t)
  with assms obtain m where m: "manager_at w a = Some m"
    by (auto simp: with_manager_def split: option.splits)
  with TryDeregister assms heap_work_set_manager(2)[OF m] show ?thesis
    by (auto simp: with_manager_def work_def heap_work_set_manager(1)[OF m]
        split: prod.splits dest!: potential_TryDeregisterCallback)
next
  case (Cancel a)
  with assms obtain m where m: "manager_at w a = Some m"
    by (auto simp: with_manager_def split: option.splits)
  with Cancel assms heap_work_set_manager(2)[OF m] show ?thesis
    by (auto simp: with_manager_def work_def heap_work_set_manager(1)[OF m]
        split: prod.splits option.splits dest!: potential_StartCancel_locked)
next
  case (Query a)
  then show ?thesis using assms
    by (auto simp: with_manager_def work_def split: option.splits)
qed

lemma step_decreases:
  assumes "step w stk = Inr (w', stk', r)"
  shows "work w' stk' < work w stk"
proof (cases stk)
  case Nil
  with assms show ?thesis by simp
next
  case (Cons f rest)
  show ?thesis
  proof (cases f)
    case (Call c)
    with Cons assms show ?thesis by (simp add: step_call_decreases)
  next
    case (Ctor_register p t)
    with Cons assms obtain m where m: "manager_at w p = Some m"
      by (auto simp: with_manager_def split: option.splits)
    with Ctor_register Cons assms heap_work_set_manager(2)[OF m] show ?thesis
      by (auto simp: with_manager_def work_def heap_work_set_manager(1)[OF m] potential_def
          registry_def
          split: prod.splits sum.splits dest!: potential_RegisterCallback)
  next
    case (StartCancel_loop a cbs n)
    show ?thesis
    proof (cases cbs)
      case Nil
      with StartCancel_loop Cons assms obtain m where m: "manager_at w a = Some m"
        by (auto simp: with_manager_def split: option.splits)
      with Nil StartCancel_loop Cons assms heap_work_set_manager(2)[OF m] show ?thesis
        by (auto simp: with_manager_def work_def heap_work_set_manager(1)[OF m]
            potential_StartCancel_finish)
    next
      case (Cons kv cbs')
      with StartCancel_loop \<open>stk = f # rest\<close> assms show ?thesis
        by (auto simp: work_def invoke_weight)
    qed
  next
    case (External_body x)
    with Cons assms show ?thesis by (auto simp: work_def)
  next
    case (StartCancel_notify a)
    with Cons assms obtain m where m: "manager_at w a = Some m"
      by (auto simp: with_manager_def split: option.splits)
    with StartCancel_notify Cons assms heap_work_set_manager(2)[OF m] show ?thesis
      by (auto simp: with_manager_def work_def heap_work_set_manager(1)[OF m] potential_Notify)
  next
    case (DeregisterCallback_wait a)
    with Cons assms show ?thesis
      by (auto simp: with_manager_def work_def split: option.splits if_splits)
  next
    case (Dtor_state a)
    with Cons assms show ?thesis
      by (auto simp: with_manager_def work_def split: option.splits if_splits)
  next
    case (Dtor_free a)
    with Cons assms heap_work_free[of w a] show ?thesis
      by (auto simp: with_manager_def work_def split: option.splits)
  qed
qed

text \<open>
  A thread alone, run until its stack is empty: the result is the store and the value
  the last frame returned, or the reason why the thread cannot go on.
\<close>

function exec :: "world \<Rightarrow> frame list \<Rightarrow> stuck + (world \<times> retval option)" where
  "exec w stk =
     (case step w stk of
        Inl e \<Rightarrow> Inl e
      | Inr (w', stk', r) \<Rightarrow> if stk' = [] then Inr (w', r) else exec w' stk')"
  by pat_completeness auto
termination
  by (relation "measure (\<lambda>(w, stk). work w stk)") (auto simp: step_decreases)

definition run :: "call \<Rightarrow> world \<Rightarrow> stuck + (world \<times> retval option)" where
  "run c w = exec w [Call c]"

section \<open>Basic facts about the store and about running\<close>

lemma manager_at_set_manager:
  "manager_at (set_manager a m w) b =
     (if b = a \<and> a < length (heap w) then Some m else manager_at w b)"
  by (auto simp: manager_at_def set_manager_def)

lemma set_manager_same: "manager_at w a = Some m \<Longrightarrow> set_manager a m w = w"
  by (auto simp: manager_at_def set_manager_def list_update_same_conv split: if_splits)

lemma manager_at_length: "manager_at w a = Some m \<Longrightarrow> a < length (heap w)"
  by (auto simp: manager_at_def split: if_splits)

lemma registry_erase_callback: "registry (erase_callback token m) = AList.delete token (registry m)"
  by (auto simp: registry_def erase_callback_def split: option.splits)

lemma exec_return:
  "step w stk = Inr (w', [], r) \<Longrightarrow> exec w stk = Inr (w', r)"
  by (subst exec.simps) simp

lemma exec_continue:
  "step w stk = Inr (w', stk', r) \<Longrightarrow> stk' \<noteq> [] \<Longrightarrow> exec w stk = exec w' stk'"
  by (subst exec.simps) simp

lemma exec_stuck: "step w stk = Inl e \<Longrightarrow> exec w stk = Inl e"
  by (subst exec.simps) simp

text \<open>A store with one idle manager that has handed out two tokens and holds a callback for
  each.\<close>

definition demo_manager :: CancellationManager where
  "demo_manager =
     \<lparr>is_cancelling = False, is_cancelled = False, next_cancellation_token = 2,
      state = Some \<lparr>callbacks = [(0, External 7), (1, External 8)], cancelled_notification = False\<rparr>,
      parent = None, parent_token = 0\<rparr>"

definition demo_world :: world where
  "demo_world = \<lparr>heap = [Some demo_manager], invoked = [], issued = [(0, 0), (0, 1)]\<rparr>"

section \<open>TryDeregisterCallback\<close>

text \<open>
  Claim C8. \<^verbatim>\<open>TryDeregisterCallback(token)\<close> never blocks. Its call is one step that
  returns: when the manager is idle it erases the entry of the token from the registry (the
  other entries stay) and returns true, as the idle case of \<^verbatim>\<open>DeregisterCallback\<close> does;
  when the manager is cancelling or cancelled it returns false at once, it pushes no wait
  and the store is unchanged.
\<close>

theorem TryDeregisterCallback_never_blocks:
  assumes "manager_at w a = Some m"
  shows "step w (Call (TryDeregister a token) # stk) =
           (if manager_state m = Idle
            then Inr (set_manager a (erase_callback token m) w, stk, Some (RBool True))
            else Inr (w, stk, Some (RBool False)))
         \<and> run (TryDeregister a token) w =
           (if manager_state m = Idle
            then Inr (set_manager a (erase_callback token m) w, Some (RBool True))
            else Inr (w, Some (RBool False)))
         \<and> (manager_state m = Idle \<longrightarrow>
              step w (Call (Deregister a token) # stk) = step w (Call (TryDeregister a token) # stk))
         \<and> registry (erase_callback token m) = AList.delete token (registry m)
         \<and> map_of (registry (erase_callback token m)) token = None
         \<and> (\<forall>t. t \<noteq> token \<longrightarrow>
              map_of (registry (erase_callback token m)) t = map_of (registry m) t)"
proof -
  have s: "step w (Call (TryDeregister a token) # stk) =
           (if manager_state m = Idle
            then Inr (set_manager a (erase_callback token m) w, stk, Some (RBool True))
            else Inr (w, stk, Some (RBool False)))" for stk
    using assms
    by (auto simp: with_manager_def TryDeregisterCallback_def manager_state_def set_manager_same)
  have "run (TryDeregister a token) w =
           (if manager_state m = Idle
            then Inr (set_manager a (erase_callback token m) w, Some (RBool True))
            else Inr (w, Some (RBool False)))"
    unfolding run_def using s[of "[]"] by (auto intro: exec_return split: if_splits)
  moreover have "manager_state m = Idle \<longrightarrow>
      step w (Call (Deregister a token) # stk) = step w (Call (TryDeregister a token) # stk)"
    using assms
    by (auto simp: with_manager_def TryDeregisterCallback_def DeregisterCallback_locked_def
        manager_state_def split: if_splits)
  ultimately show ?thesis
    using s[of stk] by (simp add: registry_erase_callback delete_conv)
qed

theorem TryDeregisterCallback_never_blocks_witness:
  "manager_at demo_world 0 = Some demo_manager \<and>
   manager_state demo_manager = Idle \<and>
   run (TryDeregister 0 1) demo_world =
     Inr (demo_world\<lparr>heap := [Some (demo_manager\<lparr>state :=
            Some \<lparr>callbacks = [(0, External 7)], cancelled_notification = False\<rparr>\<rparr>)]\<rparr>,
          Some (RBool True))"
proof -
  have h: "manager_at demo_world 0 = Some demo_manager"
    by (simp add: manager_at_def demo_world_def)
  have i: "manager_state demo_manager = Idle"
    by (simp add: manager_state_def demo_manager_def)
  from TryDeregisterCallback_never_blocks[OF h, of 1 "[]"] i
  have "run (TryDeregister 0 1) demo_world =
          Inr (set_manager 0 (erase_callback 1 demo_manager) demo_world, Some (RBool True))"
    by simp
  with h i show ?thesis
    by (simp add: set_manager_def erase_callback_def demo_world_def demo_manager_def AList.delete_eq)
qed

section \<open>Frames above a stack\<close>

lemma manager_at_logs [simp]:
  "manager_at (w\<lparr>invoked := x\<rparr>) a = manager_at w a"
  "manager_at (w\<lparr>issued := y\<rparr>) a = manager_at w a"
  by (simp_all add: manager_at_def)

lemma set_manager_fields [simp]:
  "invoked (set_manager a m w) = invoked w"
  "issued (set_manager a m w) = issued w"
  "length (heap (set_manager a m w)) = length (heap w)"
  by (simp_all add: set_manager_def)

lemma step_append:
  assumes "stk \<noteq> []"
  shows "step w (stk @ rest) =
     (case step w stk of Inl e \<Rightarrow> Inl e | Inr (w', stk', r) \<Rightarrow> Inr (w', stk' @ rest, r))"
proof -
  from assms obtain f stk0 where stk: "stk = f # stk0" by (cases stk) auto
  show ?thesis
  proof (cases f)
    case (Call c)
    show ?thesis
    proof (cases c)
      case (New po)
      with Call show ?thesis unfolding stk
        by (cases po) (auto simp: with_manager_def split: option.splits prod.splits)
    qed (auto simp: Call stk with_manager_def split: option.splits prod.splits sum.splits
           deregister_outcome.splits)
  next
    case (StartCancel_loop a cbs n)
    then show ?thesis unfolding stk
      by (cases cbs) (auto simp: with_manager_def split: option.splits)
  qed (auto simp: stk with_manager_def split: option.splits prod.splits sum.splits)
qed

lemma exec_append:
  "stk \<noteq> [] \<Longrightarrow>
   exec w (stk @ rest) =
     (case exec w stk of
        Inl e \<Rightarrow> Inl e
      | Inr (w', r) \<Rightarrow> if rest = [] then Inr (w', r) else exec w' rest)"
proof (induction w stk rule: exec.induct)
  case (1 w stk)
  show ?case
  proof (cases "step w stk")
    case (Inl e)
    with 1 show ?thesis
      by (subst exec.simps, subst (2) exec.simps) (simp add: step_append)
  next
    case (Inr x)
    then obtain w' stk' r where x: "step w stk = Inr (w', stk', r)" by (cases x) auto
    show ?thesis
    proof (cases "stk' = []")
      case True
      with x 1 show ?thesis
        by (subst exec.simps, subst (2) exec.simps) (simp add: step_append)
    next
      case False
      with x 1 show ?thesis
        by (subst exec.simps, subst (2) exec.simps) (simp add: step_append)
    qed
  qed
qed

section \<open>Cancellation passes\<close>

text \<open>
  A pass can run when every callback it may invoke can be called: the closure of a child
  refers to a manager that still exists. Registries have one entry for each key.
\<close>

definition live :: "world \<Rightarrow> addr \<Rightarrow> bool" where
  "live w a = (manager_at w a \<noteq> None)"

fun callback_ok :: "world \<Rightarrow> CancelCallback \<Rightarrow> bool" where
  "callback_ok w (External x) = True"
| "callback_ok w (CancelChild c) = live w c"

definition entries_ok :: "world \<Rightarrow> (CancellationToken \<times> CancelCallback) list \<Rightarrow> bool" where
  "entries_ok w cbs = (distinct (map fst cbs) \<and> list_all (\<lambda>kv. callback_ok w (snd kv)) cbs)"

definition wf_world :: "world \<Rightarrow> bool" where
  "wf_world w =
     list_all (\<lambda>om. case om of None \<Rightarrow> True | Some m \<Rightarrow> entries_ok w (registry m)) (heap w)"

definition busy :: "world \<Rightarrow> addr \<Rightarrow> bool" where
  "busy w a = (case manager_at w a of None \<Rightarrow> False | Some m \<Rightarrow> manager_state m \<noteq> Idle)"

text \<open>The frames of a pass, and what they need from the store.\<close>

fun cancel_frame_ok :: "world \<Rightarrow> frame \<Rightarrow> bool" where
  "cancel_frame_ok w (Call (Cancel c)) = live w c"
| "cancel_frame_ok w (StartCancel_loop a cbs n) = (busy w a \<and> entries_ok w cbs)"
| "cancel_frame_ok w (External_body x) = True"
| "cancel_frame_ok w (StartCancel_notify a) = live w a"
| "cancel_frame_ok w _ = False"

definition good :: "world \<Rightarrow> frame list \<Rightarrow> bool" where
  "good w stk = (wf_world w \<and> list_all (cancel_frame_ok w) stk)"

lemma wf_world_iff:
  "wf_world w \<longleftrightarrow> (\<forall>a m. manager_at w a = Some m \<longrightarrow> entries_ok w (registry m))"
  unfolding wf_world_def list_all_length manager_at_def
  by (auto split: option.splits)

lemma exec_invariant:
  assumes "I w stk" and "stk \<noteq> []"
    and step: "\<And>w stk. I w stk \<Longrightarrow> stk \<noteq> [] \<Longrightarrow>
                 \<exists>w' stk' r. step w stk = Inr (w', stk', r) \<and> I w' stk' \<and> (stk' = [] \<longrightarrow> P r)"
  shows "\<exists>w' r. exec w stk = Inr (w', r) \<and> I w' [] \<and> P r"
  using assms(1,2)
proof (induction w stk rule: exec.induct)
  case (1 w stk)
  from step[OF 1(2,3)] obtain w' stk' r
    where s: "step w stk = Inr (w', stk', r)" and i: "I w' stk'" and p: "stk' = [] \<longrightarrow> P r"
    by blast
  show ?case
  proof (cases "stk' = []")
    case True
    with s i p show ?thesis by (subst exec.simps) simp
  next
    case False
    from 1(1)[OF s refl refl False i False] s False show ?thesis
      by (subst exec.simps) simp
  qed
qed

lemma StartCancel_locked_not_Idle:
  "manager_state m \<noteq> Idle \<Longrightarrow> StartCancel_locked m = (None, m)"
  by (auto simp: StartCancel_locked_def manager_state_def split: if_splits)

lemma StartCancel_locked_Idle:
  "manager_state m = Idle \<Longrightarrow>
   StartCancel_locked m =
     (Some (registry m, state m \<noteq> None),
      m\<lparr>is_cancelling := True,
        state := map_option (\<lambda>s. s\<lparr>callbacks := []\<rparr>) (state m)\<rparr>)"
  by (auto simp: StartCancel_locked_def manager_state_def registry_def split: if_splits option.splits)

lemma live_set_manager:
  "live w a \<Longrightarrow> live (set_manager a m w) b = live w b"
  by (auto simp: live_def manager_at_set_manager dest: manager_at_length)

lemma live_logs [simp]:
  "live (w\<lparr>invoked := x\<rparr>) a = live w a"
  by (simp add: live_def)

lemma callback_ok_cong:
  assumes "\<And>b. live w' b = live w b"
  shows "callback_ok w' = callback_ok w"
proof
  fix cb show "callback_ok w' cb = callback_ok w cb"
    using assms by (cases cb) auto
qed

lemma entries_ok_cong:
  "(\<And>b. live w' b = live w b) \<Longrightarrow> entries_ok w' = entries_ok w"
  by (rule ext) (simp add: entries_ok_def callback_ok_cong[of w' w])

lemma cancel_frame_ok_mono:
  assumes "\<And>b. live w' b = live w b" and "\<And>b. busy w b \<Longrightarrow> busy w' b"
    and "cancel_frame_ok w f"
  shows "cancel_frame_ok w' f"
  using assms by (cases "(w, f)" rule: cancel_frame_ok.cases) (auto simp: entries_ok_cong[of w' w])

lemma busy_live: "busy w a \<Longrightarrow> live w a"
  by (auto simp: busy_def live_def split: option.splits)

lemma busy_set_manager:
  assumes "manager_at w a = Some m" and "manager_state m \<noteq> Idle \<longrightarrow> manager_state m' \<noteq> Idle"
    and "busy w b"
  shows "busy (set_manager a m' w) b"
  using assms by (auto simp: busy_def manager_at_set_manager split: option.splits)

lemma good_set_manager:
  assumes "good w stk" and "manager_at w a = Some m"
    and "registry m' = registry m \<or> registry m' = []"
    and "manager_state m \<noteq> Idle \<longrightarrow> manager_state m' \<noteq> Idle"
  shows "good (set_manager a m' w) stk"
proof -
  let ?w = "set_manager a m' w"
  have l: "\<And>b. live ?w b = live w b"
    using assms(2) by (intro live_set_manager) (simp add: live_def)
  have "entries_ok w (registry m')"
    using assms by (auto simp: good_def wf_world_iff entries_ok_def)
  with assms(1,2) have "wf_world ?w"
    by (auto simp: good_def wf_world_iff manager_at_set_manager entries_ok_cong[OF l]
        split: if_splits)
  moreover have "list_all (cancel_frame_ok ?w) stk"
    using assms(1) cancel_frame_ok_mono[OF l busy_set_manager[OF assms(2,4)]]
    by (auto simp: good_def list_all_iff)
  ultimately show ?thesis by (simp add: good_def)
qed

lemma good_invoked: "good (w\<lparr>invoked := x\<rparr>) stk = good w stk"
proof -
  have l: "\<And>b. live (w\<lparr>invoked := x\<rparr>) b = live w b" by simp
  have b: "\<And>b. busy (w\<lparr>invoked := x\<rparr>) b = busy w b" by (simp add: busy_def)
  have "cancel_frame_ok (w\<lparr>invoked := x\<rparr>) f = cancel_frame_ok w f" for f
    using cancel_frame_ok_mono[of "w\<lparr>invoked := x\<rparr>" w f] cancel_frame_ok_mono[of w "w\<lparr>invoked := x\<rparr>" f]
    by (auto simp: l b)
  then show ?thesis
    by (simp add: good_def wf_world_iff entries_ok_cong[OF l] list_all_iff)
qed

lemma registry_simps [simp]:
  "registry (StartCancel_finish m) = registry m"
  "registry (Notify m) = registry m"
  "registry (m\<lparr>is_cancelling := True, state := map_option (\<lambda>s. s\<lparr>callbacks := []\<rparr>) (state m)\<rparr>) = []"
  by (auto simp: registry_def StartCancel_finish_def Notify_def split: option.splits)

lemma manager_state_simps [simp]:
  "manager_state (StartCancel_finish m) = Cancelled"
  "manager_state (Notify m) = manager_state m"
  "manager_state m = Idle \<Longrightarrow> manager_state (m\<lparr>is_cancelling := True, state := st\<rparr>) = Cancelling"
  by (auto simp: manager_state_def StartCancel_finish_def Notify_def split: option.splits if_splits)

lemma good_step:
  assumes "good w stk" and "stk \<noteq> []"
  shows "\<exists>w' stk' r. step w stk = Inr (w', stk', r) \<and> good w' stk' \<and> (stk' = [] \<longrightarrow> r = Some RVoid)"
proof -
  from assms obtain f rest where stk: "stk = f # rest" by (cases stk) auto
  from assms stk have f: "cancel_frame_ok w f" and rest: "good w rest"
    by (auto simp: good_def)
  show ?thesis
  proof (cases "(w, f)" rule: cancel_frame_ok.cases)
    case (1 w0 c)
    with f obtain m where m: "manager_at w c = Some m" by (auto simp: live_def)
    show ?thesis
    proof (cases "manager_state m = Idle")
      case True
      let ?m = "m\<lparr>is_cancelling := True,
          state := map_option (\<lambda>s. s\<lparr>callbacks := []\<rparr>) (state m)\<rparr>"
      have l: "\<And>b. live (set_manager c ?m w) b = live w b"
        using m by (intro live_set_manager) (simp add: live_def)
      from rest m have "entries_ok w (registry m)" by (auto simp: good_def wf_world_iff)
      then have "cancel_frame_ok (set_manager c ?m w) (StartCancel_loop c (registry m) (state m \<noteq> None))"
        using m True by (simp add: entries_ok_cong[OF l] busy_def manager_at_set_manager manager_at_length)
      with good_set_manager[OF rest m, of ?m] True
      have "good (set_manager c ?m w) (StartCancel_loop c (registry m) (state m \<noteq> None) # rest)"
        by (simp add: good_def)
      with 1 stk m True show ?thesis
        by (simp add: with_manager_def StartCancel_locked_Idle)
    next
      case False
      with 1 stk m rest show ?thesis
        by (simp add: with_manager_def StartCancel_locked_not_Idle)
    qed
  next
    case (2 w0 a cbs n)
    with f obtain m where m: "manager_at w a = Some m" and cbs: "entries_ok w cbs"
      by (auto simp: busy_def split: option.splits)
    show ?thesis
    proof (cases cbs)
      case Nil
      with 2 stk m good_set_manager[OF rest m, of "StartCancel_finish m"] show ?thesis
        by (simp add: with_manager_def good_def live_def manager_at_set_manager manager_at_length)
    next
      case (Cons kv cbs')
      with cbs have "cancel_frame_ok w (invoke (snd kv))" and "entries_ok w cbs'"
        by (cases "snd kv"; simp add: entries_ok_def)+
      with Cons 2 stk f rest show ?thesis
        by (simp add: good_invoked) (simp add: good_def)
    qed
  next
    case (3 w0 x)
    with stk rest show ?thesis by simp
  next
    case (4 w0 a)
    with f obtain m where m: "manager_at w a = Some m" by (auto simp: live_def)
    with 4 stk good_set_manager[OF rest m, of "Notify m"] show ?thesis
      by (simp add: with_manager_def)
  qed (use f in auto)
qed

text \<open>
  What a manager has invoked, what the loops of its pass have still to invoke, and their
  sum with the registry of an idle manager, which no step of a pass changes.
\<close>

definition invoked_by :: "addr \<Rightarrow> world \<Rightarrow> (CancellationToken \<times> CancelCallback) list" where
  "invoked_by a w = map snd (filter (\<lambda>e. fst e = a) (invoked w))"

fun pending :: "addr \<Rightarrow> frame list \<Rightarrow> (CancellationToken \<times> CancelCallback) list" where
  "pending a [] = []"
| "pending a (StartCancel_loop b cbs n # stk) = (if b = a then cbs else []) @ pending a stk"
| "pending a (f # stk) = pending a stk"

definition tally :: "addr \<Rightarrow> world \<Rightarrow> frame list \<Rightarrow> (CancellationToken \<times> CancelCallback) multiset" where
  "tally a w stk =
     mset (invoked_by a w) + mset (pending a stk) +
     (case manager_at w a of
        None \<Rightarrow> {#}
      | Some m \<Rightarrow> if manager_state m = Idle then mset (registry m) else {#})"

definition later :: "CancellationManager \<Rightarrow> CancellationManager \<Rightarrow> bool" where
  "later m m' \<longleftrightarrow>
     (registry m' = registry m \<or> registry m' = []) \<and>
     (manager_state m \<noteq> Idle \<longrightarrow> manager_state m' \<noteq> Idle \<and> registry m' = registry m) \<and>
     (manager_state m = Cancelled \<longrightarrow> manager_state m' = Cancelled) \<and>
     next_cancellation_token m' = next_cancellation_token m \<and>
     parent m' = parent m \<and> parent_token m' = parent_token m \<and>
     (state m' = None \<longleftrightarrow> state m = None)"

fun has_loop :: "addr \<Rightarrow> frame list \<Rightarrow> bool" where
  "has_loop a [] = False"
| "has_loop a (StartCancel_loop b cbs n # stk) = (b = a \<or> has_loop a stk)"
| "has_loop a (f # stk) = has_loop a stk"

lemma has_loop_invoke [simp]: "has_loop a (invoke cb # stk) = has_loop a stk"
  by (cases cb) auto

definition cancelled :: "world \<Rightarrow> addr \<Rightarrow> bool" where
  "cancelled w a = (\<exists>m. manager_at w a = Some m \<and> manager_state m = Cancelled)"

definition cancel_rel :: "world \<Rightarrow> frame list \<Rightarrow> world \<Rightarrow> frame list \<Rightarrow> bool" where
  "cancel_rel w stk w' stk' \<longleftrightarrow>
     issued w' = issued w \<and> length (heap w') = length (heap w) \<and>
     (\<exists>new. invoked w' = invoked w @ new) \<and>
     (\<forall>a. tally a w' stk' = tally a w stk) \<and>
     (\<forall>a. manager_at w a = None \<longrightarrow> manager_at w' a = None) \<and>
     (\<forall>a m. manager_at w a = Some m \<longrightarrow> (\<exists>m'. manager_at w' a = Some m' \<and> later m m')) \<and>
     (\<forall>a. has_loop a stk \<longrightarrow> has_loop a stk' \<or> cancelled w' a)"

lemma later_refl [simp]: "later m m"
  by (simp add: later_def)

lemma later_trans: "later m m' \<Longrightarrow> later m' m'' \<Longrightarrow> later m m''"
  by (auto simp: later_def)

lemma cancel_relD:
  assumes "cancel_rel w stk w' stk'"
  shows "issued w' = issued w" and "length (heap w') = length (heap w)"
    and "\<exists>new. invoked w' = invoked w @ new"
    and "tally a w' stk' = tally a w stk"
    and "manager_at w a = None \<Longrightarrow> manager_at w' a = None"
    and "manager_at w a = Some m \<Longrightarrow> \<exists>m'. manager_at w' a = Some m' \<and> later m m'"
    and "has_loop a stk \<Longrightarrow> has_loop a stk' \<or> cancelled w' a"
  using assms unfolding cancel_rel_def by blast+

lemma cancel_rel_refl [simp]: "cancel_rel w stk w stk"
  by (simp add: cancel_rel_def)

lemma cancel_rel_trans:
  assumes 1: "cancel_rel w stk w' stk'" and 2: "cancel_rel w' stk' w'' stk''"
  shows "cancel_rel w stk w'' stk''"
  unfolding cancel_rel_def
proof (intro conjI allI impI)
  show "issued w'' = issued w" using cancel_relD(1)[OF 1] cancel_relD(1)[OF 2] by simp
  show "length (heap w'') = length (heap w)" using cancel_relD(2)[OF 1] cancel_relD(2)[OF 2] by simp
  show "\<exists>new. invoked w'' = invoked w @ new"
    using cancel_relD(3)[OF 1] cancel_relD(3)[OF 2] by auto
  show "tally a w'' stk'' = tally a w stk" for a
    using cancel_relD(4)[OF 1, of a] cancel_relD(4)[OF 2, of a] by simp
  show "manager_at w'' a = None" if "manager_at w a = None" for a
    using cancel_relD(5)[OF 1 that] cancel_relD(5)[OF 2] by simp
  show "\<exists>m''. manager_at w'' a = Some m'' \<and> later m m''" if "manager_at w a = Some m" for a m
  proof -
    from cancel_relD(6)[OF 1 that] obtain m' where "manager_at w' a = Some m'" "later m m'"
      by blast
    moreover from cancel_relD(6)[OF 2 this(1)] obtain m'' where "manager_at w'' a = Some m''" "later m' m''"
      by blast
    ultimately show ?thesis by (blast intro: later_trans)
  qed
  show "has_loop a stk'' \<or> cancelled w'' a" if "has_loop a stk" for a
  proof -
    from cancel_relD(7)[OF 1 that] consider "has_loop a stk'" | "cancelled w' a"
      by blast
    then show ?thesis
    proof cases
      case 1
      with cancel_relD(7)[OF 2] show ?thesis by blast
    next
      case 2
      then obtain m where m: "manager_at w' a = Some m" "manager_state m = Cancelled"
        by (auto simp: cancelled_def)
      from cancel_relD(6)[OF \<open>cancel_rel w' stk' w'' stk''\<close> m(1)] m(2) show ?thesis
        by (auto simp: cancelled_def later_def)
    qed
  qed
qed

lemma tally_invoked_other:
  "b \<noteq> a \<Longrightarrow> tally a (w\<lparr>invoked := invoked w @ [(b, kv)]\<rparr>) stk = tally a w stk"
  by (simp add: tally_def invoked_by_def)

lemma pending_invoke [simp]: "pending a (invoke cb # stk) = pending a stk"
  by (cases cb) auto

lemma tally_set_manager_other:
  "b \<noteq> a \<Longrightarrow> tally b (set_manager a m' w) stk = tally b w stk"
  by (simp add: tally_def invoked_by_def manager_at_set_manager)

lemma cancel_rel_set_manager:
  assumes "manager_at w a = Some m" and "later m m'"
    and "tally a (set_manager a m' w) stk' = tally a w stk"
    and "\<And>b. b \<noteq> a \<Longrightarrow> pending b stk' = pending b stk"
    and "\<And>b. has_loop b stk \<Longrightarrow> has_loop b stk' \<or> cancelled (set_manager a m' w) b"
  shows "cancel_rel w stk (set_manager a m' w) stk'"
proof -
  have "tally b (set_manager a m' w) stk' = tally b w stk" for b
  proof (cases "b = a")
    case True
    with assms(3) show ?thesis by simp
  next
    case False
    with assms(4)[of b] show ?thesis
      by (simp add: tally_def invoked_by_def manager_at_set_manager)
  qed
  with assms(1,2,5) show ?thesis
    by (auto simp: cancel_rel_def manager_at_set_manager dest: manager_at_length)
qed

lemma later_simps [simp]:
  "later m (Notify m)"
  "manager_state m \<noteq> Idle \<Longrightarrow> later m (StartCancel_finish m)"
  "manager_state m = Idle \<Longrightarrow>
     later m (m\<lparr>is_cancelling := True, state := map_option (\<lambda>s. s\<lparr>callbacks := []\<rparr>) (state m)\<rparr>)"
  by (auto simp: later_def Notify_def StartCancel_finish_def manager_state_def registry_def
      split: option.splits if_splits)

lemma cancel_rel_invoked:
  assumes "\<And>b. tally b (w\<lparr>invoked := invoked w @ new\<rparr>) stk' = tally b w stk"
    and "\<And>b. has_loop b stk \<Longrightarrow> has_loop b stk'"
  shows "cancel_rel w stk (w\<lparr>invoked := invoked w @ new\<rparr>) stk'"
  unfolding cancel_rel_def using assms by simp

lemma cancel_rel_pop:
  assumes "\<And>b. pending b stk' = pending b stk"
    and "\<And>b. has_loop b stk \<Longrightarrow> has_loop b stk'"
  shows "cancel_rel w stk w stk'"
  unfolding cancel_rel_def using assms by (simp add: tally_def)

lemma tally_invoke_step:
  "tally b (w\<lparr>invoked := invoked w @ [(a, kv)]\<rparr>)
     (invoke (snd kv) # StartCancel_loop a cbs n # rest) =
   tally b w (StartCancel_loop a (kv # cbs) n # rest)"
  by (simp add: tally_def invoked_by_def)

lemma cancel_step_rel:
  assumes "good w stk" and "step w stk = Inr (w', stk', r)"
  shows "cancel_rel w stk w' stk'"
proof -
  from assms obtain f rest where stk: "stk = f # rest" by (cases stk) auto
  from assms stk have f: "cancel_frame_ok w f"
    by (auto simp: good_def)
  show ?thesis
  proof (cases "(w, f)" rule: cancel_frame_ok.cases)
    case (1 w0 c)
    then have fc: "f = Call (Cancel c)" by simp
    from fc f obtain m where m: "manager_at w c = Some m" by (auto simp: live_def)
    show ?thesis
    proof (cases "manager_state m = Idle")
      case True
      let ?m = "m\<lparr>is_cancelling := True,
          state := map_option (\<lambda>s. s\<lparr>callbacks := []\<rparr>) (state m)\<rparr>"
      have "cancel_rel w (Call (Cancel c) # rest) (set_manager c ?m w)
              (StartCancel_loop c (registry m) (state m \<noteq> None) # rest)"
      proof (rule cancel_rel_set_manager[OF m])
        show "later m ?m" using True by simp
        show "tally c (set_manager c ?m w) (StartCancel_loop c (registry m) (state m \<noteq> None) # rest)
              = tally c w (Call (Cancel c) # rest)"
          using m True by (simp add: tally_def invoked_by_def manager_at_set_manager manager_at_length)
      qed simp_all
      with fc stk m True assms(2) show ?thesis
        by (simp add: with_manager_def StartCancel_locked_Idle)
    next
      case False
      have "cancel_rel w (Call (Cancel c) # rest) w rest"
        by (rule cancel_rel_pop) simp_all
      with False fc stk m assms(2) show ?thesis
        by (simp add: with_manager_def StartCancel_locked_not_Idle)
    qed
  next
    case (2 w0 a cbs n)
    then have fc: "f = StartCancel_loop a cbs n" by simp
    with f obtain m where m: "manager_at w a = Some m" and busy: "manager_state m \<noteq> Idle"
      by (auto simp: busy_def split: option.splits)
    show ?thesis
    proof (cases cbs)
      case Nil
      have "cancel_rel w (StartCancel_loop a [] n # rest) (set_manager a (StartCancel_finish m) w)
              (if n then StartCancel_notify a # rest else rest)"
      proof (rule cancel_rel_set_manager[OF m])
        show "later m (StartCancel_finish m)" using busy by simp
        show "tally a (set_manager a (StartCancel_finish m) w)
                (if n then StartCancel_notify a # rest else rest) =
              tally a w (StartCancel_loop a [] n # rest)"
          using m busy by (simp add: tally_def invoked_by_def manager_at_set_manager manager_at_length)
        show "has_loop b (if n then StartCancel_notify a # rest else rest) \<or>
              cancelled (set_manager a (StartCancel_finish m) w) b"
          if "has_loop b (StartCancel_loop a [] n # rest)" for b
          using that m by (auto simp: cancelled_def manager_at_set_manager manager_at_length)
      qed simp
      with Nil fc stk m assms(2) show ?thesis
        by (auto simp: with_manager_def)
    next
      case (Cons kv cbs')
      have "cancel_rel w (StartCancel_loop a (kv # cbs') n # rest)
              (w\<lparr>invoked := invoked w @ [(a, kv)]\<rparr>)
              (invoke (snd kv) # StartCancel_loop a cbs' n # rest)"
        by (rule cancel_rel_invoked) (simp_all add: tally_invoke_step)
      with Cons fc stk assms(2) show ?thesis
        by auto
    qed
  next
    case (3 w0 x)
    have "cancel_rel w (External_body x # rest) w rest"
      by (rule cancel_rel_pop) simp_all
    with 3 stk assms(2) show ?thesis by auto
  next
    case (4 w0 a)
    then have fc: "f = StartCancel_notify a" by simp
    with f obtain m where m: "manager_at w a = Some m" by (auto simp: live_def)
    have "cancel_rel w (StartCancel_notify a # rest) (set_manager a (Notify m) w) rest"
    proof (rule cancel_rel_set_manager[OF m])
      show "tally a (set_manager a (Notify m) w) rest = tally a w (StartCancel_notify a # rest)"
        using m by (simp add: tally_def invoked_by_def manager_at_set_manager manager_at_length)
    qed simp_all
    with fc stk m assms(2) show ?thesis
      by (auto simp: with_manager_def)
  qed (use f in auto)
qed

lemma exec_cancel:
  assumes "good w stk" and "stk \<noteq> []"
  shows "\<exists>w'. exec w stk = Inr (w', Some RVoid) \<and> good w' [] \<and> cancel_rel w stk w' []"
proof -
  have "\<exists>w' r. exec w stk = Inr (w', r) \<and> (good w' [] \<and> cancel_rel w stk w' []) \<and> r = Some RVoid"
  proof (rule exec_invariant[where I = "\<lambda>w1 stk1. good w1 stk1 \<and> cancel_rel w stk w1 stk1"])
    show "good w stk \<and> cancel_rel w stk w stk" using assms by simp
    show "stk \<noteq> []" by fact
  next
    fix w1 stk1
    assume i: "good w1 stk1 \<and> cancel_rel w stk w1 stk1" and ne: "stk1 \<noteq> []"
    from good_step[of w1 stk1] i ne obtain w' stk' r
      where s: "step w1 stk1 = Inr (w', stk', r)" and g: "good w' stk'"
        and r: "stk' = [] \<longrightarrow> r = Some RVoid"
      by blast
    from cancel_step_rel[OF _ s] i have "cancel_rel w1 stk1 w' stk'" by simp
    with i have "cancel_rel w stk w' stk'" by (blast intro: cancel_rel_trans)
    with s g r
    show "\<exists>w' stk' r. step w1 stk1 = Inr (w', stk', r) \<and>
            (good w' stk' \<and> cancel_rel w stk w' stk') \<and> (stk' = [] \<longrightarrow> r = Some RVoid)"
      by blast
  qed
  then show ?thesis by blast
qed

text \<open>\<^verbatim>\<open>StartCancel\<close> called a number of times in a row.\<close>

fun StartCancel_times :: "nat \<Rightarrow> addr \<Rightarrow> world \<Rightarrow> stuck + world" where
  "StartCancel_times 0 a w = Inr w"
| "StartCancel_times (Suc n) a w =
     (case run (Cancel a) w of Inl e \<Rightarrow> Inl e | Inr (w', r) \<Rightarrow> StartCancel_times n a w')"

lemma run_Cancel_not_Idle:
  assumes "manager_at w a = Some m" and "manager_state m \<noteq> Idle"
  shows "run (Cancel a) w = Inr (w, Some RVoid)"
  unfolding run_def using assms
  by (intro exec_return) (simp add: with_manager_def StartCancel_locked_not_Idle)

lemma StartCancel_times_not_Idle:
  assumes "manager_at w a = Some m" and "manager_state m \<noteq> Idle"
  shows "StartCancel_times n a w = Inr w"
  by (induction n) (simp_all add: run_Cancel_not_Idle[OF assms])

lemma run_Cancel_Idle:
  assumes wf: "wf_world w" and m: "manager_at w a = Some m" and idle: "manager_state m = Idle"
  shows "\<exists>w' m'. run (Cancel a) w = Inr (w', Some RVoid) \<and> wf_world w' \<and>
           cancel_rel w [Call (Cancel a)] w' [] \<and>
           manager_at w' a = Some m' \<and> manager_state m' = Cancelled \<and> registry m' = [] \<and>
           mset (invoked_by a w') = mset (invoked_by a w) + mset (registry m)"
proof -
  let ?m = "m\<lparr>is_cancelling := True, state := map_option (\<lambda>s. s\<lparr>callbacks := []\<rparr>) (state m)\<rparr>"
  let ?w = "set_manager a ?m w"
  let ?stk = "[StartCancel_loop a (registry m) (state m \<noteq> None)]"
  have g0: "good w [Call (Cancel a)]"
    using wf m by (simp add: good_def live_def)
  have s: "step w [Call (Cancel a)] = Inr (?w, ?stk, None)"
    using m idle by (simp add: with_manager_def StartCancel_locked_Idle)
  from good_step[OF g0] s have g1: "good ?w ?stk" by simp
  from cancel_step_rel[OF g0 s] have r1: "cancel_rel w [Call (Cancel a)] ?w ?stk" .
  from exec_cancel[OF g1] obtain w' where
    e: "exec ?w ?stk = Inr (w', Some RVoid)" and g': "good w' []" and r2: "cancel_rel ?w ?stk w' []"
    by auto
  from cancel_rel_trans[OF r1 r2] have r: "cancel_rel w [Call (Cancel a)] w' []" .
  from cancel_relD(7)[OF r2, of a] obtain m' where
    m': "manager_at w' a = Some m'" "manager_state m' = Cancelled"
    by (auto simp: cancelled_def)
  have ma: "manager_at ?w a = Some ?m"
    using m by (simp add: manager_at_set_manager manager_at_length)
  from cancel_relD(6)[OF r2 ma] m'(1) idle have reg: "registry m' = []"
    by (auto simp: later_def)
  from cancel_relD(4)[OF r, of a] m m' idle
  have "mset (invoked_by a w') = mset (invoked_by a w) + mset (registry m)"
    by (simp add: tally_def)
  moreover have "run (Cancel a) w = Inr (w', Some RVoid)"
    unfolding run_def using exec_continue[OF s] e by simp
  ultimately show ?thesis
    using g' r m' reg by (auto simp: good_def)
qed

text \<open>A store with an idle parent and its idle child: the parent holds a callback of a
  collaborator and the closure of the child, the child a callback of a collaborator.\<close>

definition family_parent :: CancellationManager where
  "family_parent =
     \<lparr>is_cancelling = False, is_cancelled = False, next_cancellation_token = 2,
      state = Some \<lparr>callbacks = [(0, External 7), (1, CancelChild 1)], cancelled_notification = False\<rparr>,
      parent = None, parent_token = 0\<rparr>"

definition family_child :: CancellationManager where
  "family_child =
     \<lparr>is_cancelling = False, is_cancelled = False, next_cancellation_token = 1,
      state = Some \<lparr>callbacks = [(0, External 9)], cancelled_notification = False\<rparr>,
      parent = Some 0, parent_token = 1\<rparr>"

definition family_world :: world where
  "family_world =
     \<lparr>heap = [Some family_parent, Some family_child], invoked = [],
      issued = [(0, 0), (0, 1), (1, 0)]\<rparr>"

lemma invoked_by_append:
  "invoked w' = invoked w @ new \<Longrightarrow>
   invoked_by a w' = invoked_by a w @ map snd (filter (\<lambda>e. fst e = a) new)"
  by (simp add: invoked_by_def)

lemma wf_world_distinct:
  "wf_world w \<Longrightarrow> manager_at w a = Some m \<Longrightarrow> distinct (registry m)"
  by (auto simp: wf_world_iff entries_ok_def dest: distinct_map[THEN iffD1])

lemma count_list_distinct: "distinct xs \<Longrightarrow> x \<in> set xs \<Longrightarrow> count_list xs x = 1"
  by (simp add: distinct_count_atmost_1 count_mset[symmetric] del: count_mset)

section \<open>StartCancel\<close>

text \<open>
  Claim C1. In a store whose registered callbacks can all be called, \<^verbatim>\<open>StartCancel\<close> on a
  manager returns, and calling it any number of times gives the store of the first call.
  If the manager was idle, the call invokes the entries that were in its registry, each
  one exactly once, and leaves the manager cancelled with an empty registry; if it was
  cancelling or cancelled, the call changes nothing and invokes nothing.
\<close>

theorem StartCancel_runs_each_callback_once:
  assumes "wf_world w" and "manager_at w a = Some m"
  shows "\<exists>w' new.
     run (Cancel a) w = Inr (w', Some RVoid) \<and>
     (\<forall>n. StartCancel_times (Suc n) a w = Inr w') \<and>
     invoked_by a w' = invoked_by a w @ new \<and>
     (if manager_state m = Idle
      then mset new = mset (registry m) \<and>
           (\<forall>kv \<in> set (registry m). count_list new kv = 1) \<and>
           (\<exists>m'. manager_at w' a = Some m' \<and> manager_state m' = Cancelled \<and> registry m' = [])
      else w' = w \<and> new = [])"
proof (cases "manager_state m = Idle")
  case True
  from run_Cancel_Idle[OF assms True] obtain w' m' where
    r: "run (Cancel a) w = Inr (w', Some RVoid)" and rel: "cancel_rel w [Call (Cancel a)] w' []"
    and m': "manager_at w' a = Some m'" "manager_state m' = Cancelled" "registry m' = []"
    and ms: "mset (invoked_by a w') = mset (invoked_by a w) + mset (registry m)"
    by blast
  from cancel_relD(3)[OF rel] obtain nw where "invoked w' = invoked w @ nw" by blast
  from invoked_by_append[OF this, of a] obtain new where
    new: "invoked_by a w' = invoked_by a w @ new" by blast
  with ms have mn: "mset new = mset (registry m)" by simp
  have "count_list new kv = 1" if "kv \<in> set (registry m)" for kv
  proof -
    from mn have "count_list new kv = count_list (registry m) kv"
      by (metis count_mset)
    with that wf_world_distinct[OF assms] show ?thesis
      by (simp add: count_list_distinct)
  qed
  moreover have "StartCancel_times (Suc n) a w = Inr w'" for n
    using r m'(2) StartCancel_times_not_Idle[OF m'(1), of n] by simp
  ultimately show ?thesis
    using True r new mn m' by auto
next
  case False
  have "StartCancel_times (Suc n) a w = Inr w" for n
    using StartCancel_times_not_Idle[OF assms(2) False] .
  with False run_Cancel_not_Idle[OF assms(2) False] show ?thesis
    by auto
qed

lemma wf_family_world: "wf_world family_world"
  by (simp add: wf_world_def family_world_def family_parent_def family_child_def registry_def
      entries_ok_def live_def manager_at_def)

theorem StartCancel_runs_each_callback_once_witness:
  "wf_world family_world \<and> manager_at family_world 0 = Some family_parent \<and>
   manager_state family_parent = Idle \<and>
   registry family_parent = [(0, External 7), (1, CancelChild 1)] \<and>
   (\<exists>w' new.
     run (Cancel 0) family_world = Inr (w', Some RVoid) \<and>
     (\<forall>n. StartCancel_times (Suc n) 0 family_world = Inr w') \<and>
     invoked_by 0 w' = invoked_by 0 family_world @ new \<and>
     mset new = mset [(0, External 7), (1, CancelChild 1)] \<and>
     count_list new (0, External 7) = 1 \<and> count_list new (1, CancelChild 1) = 1)"
proof -
  have h: "manager_at family_world 0 = Some family_parent"
    by (simp add: manager_at_def family_world_def)
  have i: "manager_state family_parent = Idle"
    and r: "registry family_parent = [(0, External 7), (1, CancelChild 1)]"
    by (simp_all add: manager_state_def registry_def family_parent_def)
  from StartCancel_runs_each_callback_once[OF wf_family_world h] i r
  show ?thesis using wf_family_world h by auto
qed

section \<open>RegisterCallback\<close>

text \<open>A store with one manager whose pass is over.\<close>

definition done_manager :: CancellationManager where
  "done_manager =
     \<lparr>is_cancelling = False, is_cancelled = True, next_cancellation_token = 2,
      state = Some \<lparr>callbacks = [], cancelled_notification = True\<rparr>,
      parent = None, parent_token = 0\<rparr>"

definition done_world :: world where
  "done_world =
     \<lparr>heap = [Some done_manager], invoked = [(0, 0, External 7), (0, 1, External 8)],
      issued = [(0, 0), (0, 1)]\<rparr>"

text \<open>The manager after a registration that succeeded: lines 82 to 85.\<close>

definition store_callback :: "CancellationToken \<Rightarrow> CancelCallback \<Rightarrow> CancellationManager \<Rightarrow> CancellationManager" where
  "store_callback token callback m =
     m\<lparr>state := Some \<lparr>callbacks = AList.update token callback (registry m),
                        cancelled_notification = HasBeenNotified m\<rparr>\<rparr>"

lemma RegisterCallback_eq:
  "token < next_cancellation_token m \<Longrightarrow>
   RegisterCallback token callback m =
     Inr (manager_state m = Idle,
          if manager_state m = Idle then store_callback token callback m else m)"
  by (auto simp: RegisterCallback_def store_callback_def manager_state_def registry_def
      HasBeenNotified_def split: option.splits)

lemma run_Register:
  assumes "manager_at w a = Some m" and "token < next_cancellation_token m"
  shows "run (Register a token callback) w =
     (if manager_state m = Idle
      then Inr (set_manager a (store_callback token callback m) w, Some (RBool True))
      else Inr (w, Some (RBool False)))"
  unfolding run_def using assms
  by (auto intro!: exec_return simp: with_manager_def RegisterCallback_eq set_manager_same)

lemma store_callback_simps [simp]:
  "registry (store_callback token callback m) = AList.update token callback (registry m)"
  "manager_state (store_callback token callback m) = manager_state m"
  "state (store_callback token callback m) \<noteq> None"
  by (simp_all add: store_callback_def registry_def manager_state_def)

text \<open>
  Claim C2. For a token the manager has issued, \<^verbatim>\<open>RegisterCallback(token, callback)\<close>
  returns true exactly when the manager is idle, and then the registry (allocated if it
  was not) holds the callback under the token. When the manager is cancelling or cancelled
  it returns false, the manager and the store are unchanged, and a later \<^verbatim>\<open>StartCancel\<close>
  changes nothing, so it invokes nothing.
\<close>

theorem RegisterCallback_only_while_Idle:
  assumes "manager_at w a = Some m" and "token < next_cancellation_token m"
  shows "RegisterCallback token callback m =
           Inr (manager_state m = Idle,
                if manager_state m = Idle then store_callback token callback m else m)
         \<and> run (Register a token callback) w =
             (if manager_state m = Idle
              then Inr (set_manager a (store_callback token callback m) w, Some (RBool True))
              else Inr (w, Some (RBool False)))
         \<and> state (store_callback token callback m) \<noteq> None
         \<and> map_of (registry (store_callback token callback m)) token = Some callback
         \<and> (manager_state m \<noteq> Idle \<longrightarrow> run (Cancel a) w = Inr (w, Some RVoid))"
  using RegisterCallback_eq[OF assms(2)] run_Register[OF assms] run_Cancel_not_Idle[OF assms(1)]
  by (simp add: update_conv')

theorem RegisterCallback_only_while_Idle_witness:
  "manager_at done_world 0 = Some done_manager \<and> 1 < next_cancellation_token done_manager \<and>
   manager_state done_manager = Cancelled \<and>
   RegisterCallback 1 (External 5) done_manager = Inr (False, done_manager) \<and>
   run (Register 0 1 (External 5)) done_world = Inr (done_world, Some (RBool False)) \<and>
   run (Cancel 0) done_world = Inr (done_world, Some RVoid)"
proof -
  have h: "manager_at done_world 0 = Some done_manager"
    by (simp add: manager_at_def done_world_def)
  have t: "1 < next_cancellation_token done_manager"
    and c: "manager_state done_manager = Cancelled"
    by (simp_all add: done_manager_def manager_state_def)
  from RegisterCallback_only_while_Idle[OF h t, of "External 5"] c
  show ?thesis using h t by simp
qed

lemma map_fst_update:
  "k \<in> fst ` set al \<Longrightarrow> map fst (AList.update k v al) = map fst al"
  by (induction al) auto

lemma set_update_subset: "set (AList.update k v al) \<subseteq> insert (k, v) (set al)"
  by (induction al) auto

lemma update_member: "(k, v) \<in> set (AList.update k v al)"
  by (induction al) auto

lemma update_replaces:
  "distinct (map fst al) \<Longrightarrow> v' \<noteq> v \<Longrightarrow> (k, v') \<notin> set (AList.update k v al)"
  by (induction al) (auto simp: image_iff)

lemma wf_world_store_callback:
  assumes "wf_world w" and "manager_at w a = Some m" and "callback_ok w callback"
  shows "wf_world (set_manager a (store_callback token callback m) w)"
proof -
  let ?w = "set_manager a (store_callback token callback m) w"
  have l: "\<And>b. live ?w b = live w b"
    using assms(2) by (intro live_set_manager) (simp add: live_def)
  from assms(1,2) have e: "entries_ok w (registry m)" by (simp add: wf_world_iff)
  then have "list_all (\<lambda>kv. callback_ok w (snd kv)) (AList.update token callback (registry m))"
    using assms(3) set_update_subset[of token callback "registry m"]
    by (auto simp: entries_ok_def list_all_iff)
  with e have "entries_ok w (AList.update token callback (registry m))"
    by (simp add: entries_ok_def distinct_update)
  with assms(1,2) show ?thesis
    by (auto simp: wf_world_iff manager_at_set_manager entries_ok_cong[OF l] split: if_splits)
qed

text \<open>
  Claim C10. On an idle manager, \<^verbatim>\<open>RegisterCallback\<close> with a token that already has a
  callback returns true and puts the new callback in the place of the old one: the keys
  of the registry are the same, the token maps to the new callback and the old entry is
  gone. The \<^verbatim>\<open>StartCancel\<close> calls that follow invoke the new entry once and the old entry
  never.
\<close>

theorem RegisterCallback_replaces_callback:
  assumes "wf_world w" and "manager_at w a = Some m" and "manager_state m = Idle"
    and "token < next_cancellation_token m" and "map_of (registry m) token = Some old"
    and "callback_ok w new"
  shows "\<exists>w' added.
     run (Register a token new) w = Inr (set_manager a (store_callback token new m) w, Some (RBool True)) \<and>
     map fst (registry (store_callback token new m)) = map fst (registry m) \<and>
     map_of (registry (store_callback token new m)) token = Some new \<and>
     (old \<noteq> new \<longrightarrow> (token, old) \<notin> set (registry (store_callback token new m))) \<and>
     run (Cancel a) (set_manager a (store_callback token new m) w) = Inr (w', Some RVoid) \<and>
     (\<forall>n. StartCancel_times (Suc n) a (set_manager a (store_callback token new m) w) = Inr w') \<and>
     invoked_by a w' = invoked_by a w @ added \<and>
     mset added = mset (registry (store_callback token new m)) \<and>
     count_list added (token, new) = 1 \<and>
     (old \<noteq> new \<longrightarrow> count_list added (token, old) = 0)"
proof -
  let ?m = "store_callback token new m"
  let ?w = "set_manager a ?m w"
  have wf: "wf_world ?w" by (rule wf_world_store_callback[OF assms(1,2,6)])
  have ma: "manager_at ?w a = Some ?m"
    using assms(2) by (simp add: manager_at_set_manager manager_at_length)
  have idle: "manager_state ?m = Idle" using assms(3) by simp
  from assms(1,2) have d: "distinct (map fst (registry m))"
    by (simp add: wf_world_iff entries_ok_def)
  from assms(5) have k: "token \<in> fst ` set (registry m)"
    by (metis map_of_eq_None_iff option.distinct(1))
  from run_Cancel_Idle[OF wf ma idle] obtain w' m' where
    r: "run (Cancel a) ?w = Inr (w', Some RVoid)" and rel: "cancel_rel ?w [Call (Cancel a)] w' []"
    and m': "manager_at w' a = Some m'" "manager_state m' = Cancelled"
    and ms: "mset (invoked_by a w') = mset (invoked_by a ?w) + mset (registry ?m)"
    by blast
  from cancel_relD(3)[OF rel] obtain nw where "invoked w' = invoked ?w @ nw" by blast
  from invoked_by_append[OF this, of a] obtain added where
    added: "invoked_by a w' = invoked_by a w @ added" by (auto simp: invoked_by_def)
  moreover have "invoked_by a ?w = invoked_by a w" by (simp add: invoked_by_def)
  ultimately have mn: "mset added = mset (registry ?m)" using ms by simp
  then have cnt: "count_list added kv = count_list (registry ?m) kv" for kv
    by (metis count_mset)
  have dist: "distinct (registry ?m)"
    using wf_world_distinct[OF wf ma] .
  have "(token, new) \<in> set (registry ?m)"
    by (simp add: update_member)
  with dist have c1: "count_list added (token, new) = 1"
    by (simp add: cnt count_list_distinct)
  have c0: "count_list added (token, old) = 0" if "old \<noteq> new"
    using update_replaces[OF d that, of token] by (simp add: cnt count_list_0_iff)
  have "StartCancel_times (Suc n) a ?w = Inr w'" for n
    using r m'(2) StartCancel_times_not_Idle[OF m'(1), of n] by simp
  then show ?thesis
    using run_Register[OF assms(2,4), of new] assms(3) r added mn c1 c0 k d
    by (auto simp: map_fst_update update_conv' dest: update_replaces)
qed

lemma wf_demo_world: "wf_world demo_world"
  by (simp add: wf_world_def demo_world_def demo_manager_def registry_def entries_ok_def)

theorem RegisterCallback_replaces_callback_witness:
  "wf_world demo_world \<and> manager_at demo_world 0 = Some demo_manager \<and>
   manager_state demo_manager = Idle \<and> 1 < next_cancellation_token demo_manager \<and>
   map_of (registry demo_manager) 1 = Some (External 8) \<and> callback_ok demo_world (External 5) \<and>
   (\<exists>w' added.
     run (Register 0 1 (External 5)) demo_world =
       Inr (set_manager 0 (store_callback 1 (External 5) demo_manager) demo_world, Some (RBool True)) \<and>
     registry (store_callback 1 (External 5) demo_manager) = [(0, External 7), (1, External 5)] \<and>
     run (Cancel 0) (set_manager 0 (store_callback 1 (External 5) demo_manager) demo_world) =
       Inr (w', Some RVoid) \<and>
     invoked_by 0 w' = invoked_by 0 demo_world @ added \<and>
     count_list added (1, External 5) = 1 \<and> count_list added (1, External 8) = 0)"
proof -
  have h: "manager_at demo_world 0 = Some demo_manager"
    by (simp add: manager_at_def demo_world_def)
  have i: "manager_state demo_manager = Idle" and t: "1 < next_cancellation_token demo_manager"
    and o: "map_of (registry demo_manager) 1 = Some (External 8)"
    by (simp_all add: manager_state_def registry_def demo_manager_def)
  have r: "registry (store_callback 1 (External 5) demo_manager) = [(0, External 7), (1, External 5)]"
    by (simp add: store_callback_def registry_def demo_manager_def)
  have c: "callback_ok demo_world (External 5)" by simp
  from RegisterCallback_replaces_callback[OF wf_demo_world h i t o c]
  show ?thesis using wf_demo_world h i t o r by auto
qed

section \<open>The constructor of a child\<close>

text \<open>The child that lines 31 to 42 build, given the parent, the token it obtained and the
  result of its registration.\<close>

definition child_manager :: "addr \<Rightarrow> CancellationToken \<Rightarrow> bool \<Rightarrow> CancellationManager" where
  "child_manager p t ok =
     \<lparr>is_cancelling = False, is_cancelled = \<not> ok, next_cancellation_token = 0,
      state = None, parent = Some p, parent_token = t\<rparr>"

lemma manager_at_append:
  "manager_at (w\<lparr>heap := heap w @ [om]\<rparr>) a =
     (if a = length (heap w) then om else manager_at w a)"
  by (auto simp: manager_at_def nth_append)

lemma manager_at_heap_update:
  "manager_at (w\<lparr>heap := h\<rparr>) a = (if a < length h then h ! a else None)"
  by (simp add: manager_at_def)

lemma manager_at_beyond: "manager_at w (length (heap w)) = None"
  by (simp add: manager_at_def)

lemma get_cancellation_token_simps [simp]:
  "fst (get_cancellation_token m) = next_cancellation_token m"
  "next_cancellation_token (snd (get_cancellation_token m)) = next_cancellation_token m + 1"
  "manager_state (snd (get_cancellation_token m)) = manager_state m"
  "registry (snd (get_cancellation_token m)) = registry m"
  "state (snd (get_cancellation_token m)) = state m"
  by (simp_all add: get_cancellation_token_def manager_state_def registry_def)

lemma run_New_child:
  assumes "manager_at w p = Some pm"
  shows "run (New (Some p)) w =
    Inr ((set_manager p
           (if manager_state pm = Idle
            then store_callback (next_cancellation_token pm) (CancelChild (length (heap w)))
                   (snd (get_cancellation_token pm))
            else snd (get_cancellation_token pm)) w)
          \<lparr>heap := heap (set_manager p
           (if manager_state pm = Idle
            then store_callback (next_cancellation_token pm) (CancelChild (length (heap w)))
                   (snd (get_cancellation_token pm))
            else snd (get_cancellation_token pm)) w) @
             [Some (child_manager p (next_cancellation_token pm) (manager_state pm = Idle))],
            issued := issued w @ [(p, next_cancellation_token pm)]\<rparr>,
         Some (RPtr (length (heap w))))"
proof -
  let ?t = "next_cancellation_token pm"
  let ?pm = "snd (get_cancellation_token pm)"
  let ?w1 = "(set_manager p ?pm w)\<lparr>issued := issued w @ [(p, ?t)]\<rparr>"
  have s1: "step w [Call (New (Some p))] = Inr (?w1, [Ctor_register p ?t], None)"
    using assms by (simp add: with_manager_def get_cancellation_token_def)
  have m1: "manager_at ?w1 p = Some ?pm"
    using assms by (simp add: manager_at_set_manager manager_at_length)
  have t: "?t < next_cancellation_token ?pm" by simp
  have sm: "set_manager p x ?w1 = (set_manager p x w)\<lparr>issued := issued w @ [(p, ?t)]\<rparr>" for x
    by (simp add: set_manager_def)
  show ?thesis
    unfolding run_def
    apply (subst exec_continue[OF s1], simp)
    apply (rule exec_return)
    using m1 assms
    apply (auto simp: with_manager_def RegisterCallback_eq[OF t] child_manager_def set_manager_same sm)
    done
qed

lemma run_GetToken:
  assumes "manager_at w a = Some m"
  shows "run (GetToken a) w =
     Inr ((set_manager a (snd (get_cancellation_token m)) w)
            \<lparr>issued := issued w @ [(a, next_cancellation_token m)]\<rparr>,
          Some (RToken (next_cancellation_token m)))"
  unfolding run_def using assms
  by (intro exec_return) (simp add: with_manager_def get_cancellation_token_def)

lemma run_Register_not_Idle:
  assumes "manager_at w a = Some m" and "token < next_cancellation_token m"
    and "manager_state m \<noteq> Idle"
  shows "run (Register a token callback) w = Inr (w, Some (RBool False))"
  using run_Register[OF assms(1,2)] assms(3) by simp

text \<open>
  Claim C6. Constructing a child of a parent obtains the next token of the parent and
  registers, under it, the closure that cancels the child. If the parent is idle the
  registration succeeds and the child is idle. If the parent is cancelling or cancelled
  the registration fails and the child is born cancelled: no callback was invoked, a
  \<^verbatim>\<open>StartCancel\<close> on the child changes nothing, and every \<^verbatim>\<open>RegisterCallback\<close> on the
  child, as long as it is cancelled, returns false and changes nothing.
\<close>

theorem child_of_cancelled_parent_is_Cancelled:
  assumes "manager_at w p = Some pm"
  shows "\<exists>w' pm'.
     run (New (Some p)) w = Inr (w', Some (RPtr (length (heap w)))) \<and>
     manager_at w' (length (heap w)) =
       Some (child_manager p (next_cancellation_token pm) (manager_state pm = Idle)) \<and>
     issued w' = issued w @ [(p, next_cancellation_token pm)] \<and>
     invoked w' = invoked w \<and>
     manager_at w' p = Some pm' \<and>
     next_cancellation_token pm' = next_cancellation_token pm + 1 \<and>
     manager_state pm' = manager_state pm \<and>
     registry pm' =
       (if manager_state pm = Idle
        then AList.update (next_cancellation_token pm) (CancelChild (length (heap w))) (registry pm)
        else registry pm) \<and>
     (if manager_state pm = Idle
      then manager_state (child_manager p (next_cancellation_token pm) (manager_state pm = Idle)) = Idle
      else manager_state (child_manager p (next_cancellation_token pm) (manager_state pm = Idle)) = Cancelled \<and>
           run (Cancel (length (heap w))) w' = Inr (w', Some RVoid) \<and>
           (\<forall>callback. \<exists>w2.
              run (GetToken (length (heap w))) w' = Inr (w2, Some (RToken 0)) \<and>
              run (Register (length (heap w)) 0 callback) w2 = Inr (w2, Some (RBool False)) \<and>
              invoked w2 = invoked w) \<and>
           (\<forall>w'' cm token callback.
              manager_at w'' (length (heap w)) = Some cm \<and> manager_state cm = Cancelled \<and>
              token < next_cancellation_token cm \<longrightarrow>
              run (Register (length (heap w)) token callback) w'' = Inr (w'', Some (RBool False))))"
proof -
  let ?c = "length (heap w)"
  let ?t = "next_cancellation_token pm"
  define pm' where "pm' = (if manager_state pm = Idle
            then store_callback ?t (CancelChild ?c) (snd (get_cancellation_token pm))
            else snd (get_cancellation_token pm))"
  define w' where "w' = (set_manager p pm' w)\<lparr>heap := heap (set_manager p pm' w) @
             [Some (child_manager p ?t (manager_state pm = Idle))],
            issued := issued w @ [(p, ?t)]\<rparr>"
  have r: "run (New (Some p)) w = Inr (w', Some (RPtr ?c))"
    using run_New_child[OF assms] by (simp add: w'_def pm'_def)
  have p: "p < ?c" using assms by (rule manager_at_length)
  have c: "manager_at w' ?c = Some (child_manager p ?t (manager_state pm = Idle))"
    by (simp add: w'_def manager_at_def set_manager_def nth_append)
  have pm: "manager_at w' p = Some pm'"
    using p by (simp add: w'_def manager_at_def set_manager_def nth_append)
  have pm1: "next_cancellation_token pm' = ?t + 1" "manager_state pm' = manager_state pm"
    by (simp_all add: pm'_def store_callback_def manager_state_def get_cancellation_token_def)
  have pm2: "registry pm' =
       (if manager_state pm = Idle then AList.update ?t (CancelChild ?c) (registry pm)
        else registry pm)"
    by (simp add: pm'_def)
  have reg: "\<forall>w'' cm token callback.
              manager_at w'' ?c = Some cm \<and> manager_state cm = Cancelled \<and>
              token < next_cancellation_token cm \<longrightarrow>
              run (Register ?c token callback) w'' = Inr (w'', Some (RBool False))"
    by (auto intro: run_Register_not_Idle)
  have cs: "manager_state (child_manager p ?t b) = (if b then Idle else Cancelled)" for b
    by (simp add: child_manager_def manager_state_def)
  have cancel: "run (Cancel ?c) w' = Inr (w', Some RVoid)" if "manager_state pm \<noteq> Idle"
    using run_Cancel_not_Idle[OF c] that by (simp add: cs)
  have logs: "invoked w' = invoked w" "issued w' = issued w @ [(p, ?t)]"
    by (simp_all add: w'_def set_manager_def)
  have first: "\<exists>w2. run (GetToken ?c) w' = Inr (w2, Some (RToken 0)) \<and>
              run (Register ?c 0 callback) w2 = Inr (w2, Some (RBool False)) \<and>
              invoked w2 = invoked w"
    if "manager_state pm \<noteq> Idle" for callback
  proof -
    let ?cm = "child_manager p ?t False"
    let ?w2 = "(set_manager ?c (snd (get_cancellation_token ?cm)) w')
                 \<lparr>issued := issued w' @ [(?c, 0)]\<rparr>"
    from c that have c': "manager_at w' ?c = Some ?cm" by simp
    have g: "run (GetToken ?c) w' = Inr (?w2, Some (RToken 0))"
      using run_GetToken[OF c'] by (simp add: child_manager_def)
    have "manager_at ?w2 ?c = Some (snd (get_cancellation_token ?cm))"
      using c' by (simp add: manager_at_set_manager manager_at_length)
    from run_Register_not_Idle[OF this, of 0 callback]
    have "run (Register ?c 0 callback) ?w2 = Inr (?w2, Some (RBool False))"
      by (simp add: cs) (simp add: child_manager_def)
    with g logs show ?thesis by auto
  qed
  show ?thesis
  proof (cases "manager_state pm = Idle")
    case True
    with r c pm pm1 pm2 logs show ?thesis
      by (intro exI[of _ w'] exI[of _ pm']) (simp add: cs)
  next
    case False
    with r c pm pm1 pm2 logs cancel reg first show ?thesis
      by (intro exI[of _ w'] exI[of _ pm']) (simp add: cs)
  qed
qed

theorem child_of_cancelled_parent_is_Cancelled_witness:
  "manager_at done_world 0 = Some done_manager \<and> manager_state done_manager = Cancelled \<and>
   (\<exists>w'. run (New (Some 0)) done_world = Inr (w', Some (RPtr 1)) \<and>
      manager_at w' 1 = Some (child_manager 0 2 False) \<and>
      manager_state (child_manager 0 2 False) = Cancelled \<and>
      invoked w' = invoked done_world \<and>
      run (Cancel 1) w' = Inr (w', Some RVoid) \<and>
      (\<exists>w2. run (GetToken 1) w' = Inr (w2, Some (RToken 0)) \<and>
         run (Register 1 0 (External 5)) w2 = Inr (w2, Some (RBool False)) \<and>
         invoked w2 = invoked done_world))"
proof -
  have h: "manager_at done_world 0 = Some done_manager"
    by (simp add: manager_at_def done_world_def)
  have c: "manager_state done_manager = Cancelled" and n: "next_cancellation_token done_manager = 2"
    by (simp_all add: done_manager_def manager_state_def)
  have l: "length (heap done_world) = 1" by (simp add: done_world_def)
  from child_of_cancelled_parent_is_Cancelled[OF h] c n l
  show ?thesis using h by auto
qed

section \<open>The destructor\<close>

lemma run_Cancel_total:
  assumes "wf_world w" and "manager_at w a = Some m"
  shows "\<exists>w'. run (Cancel a) w = Inr (w', Some RVoid) \<and> wf_world w' \<and>
           cancel_rel w [Call (Cancel a)] w' []"
proof -
  have "good w [Call (Cancel a)]" using assms by (simp add: good_def live_def)
  from exec_cancel[OF this] show ?thesis by (auto simp: run_def good_def)
qed

lemma cancel_rel_new_events:
  assumes rel: "cancel_rel w stk w' []" and new: "invoked w' = invoked w @ new"
    and ev: "(a, kv) \<in> set new"
  shows "kv \<in> set (pending a stk) \<or>
         (\<exists>m. manager_at w a = Some m \<and> manager_state m = Idle \<and> kv \<in> set (registry m))"
proof -
  let ?na = "map snd (filter (\<lambda>e. fst e = a) new)"
  from ev have k: "kv \<in> set ?na" by force
  define R where "R = (case manager_at w a of None \<Rightarrow> {#}
           | Some m \<Rightarrow> if manager_state m = Idle then mset (registry m) else {#})"
  define R' where "R' = (case manager_at w' a of None \<Rightarrow> {#}
           | Some m \<Rightarrow> if manager_state m = Idle then mset (registry m) else {#})"
  have "invoked_by a w' = invoked_by a w @ ?na" using invoked_by_append[OF new] .
  with cancel_relD(4)[OF rel, of a]
  have "mset (invoked_by a w) + (mset ?na + R') = mset (invoked_by a w) + (mset (pending a stk) + R)"
    by (simp add: tally_def R_def R'_def add.assoc)
  then have "mset ?na + R' = mset (pending a stk) + R"
    by (simp only: add_left_cancel)
  moreover have "mset ?na \<subseteq># mset ?na + R'" by simp
  ultimately have "mset ?na \<subseteq># mset (pending a stk) + R" by simp
  from set_mset_mono[OF this]
  have "set ?na \<subseteq> set (pending a stk) \<union> set_mset R" by simp
  with k show ?thesis
    by (auto simp: R_def split: option.splits if_splits)
qed

lemma cancel_rel_registry:
  assumes "cancel_rel w stk w' stk'" and "manager_at w' a = Some m'"
  shows "\<exists>m. manager_at w a = Some m \<and> set (registry m') \<subseteq> set (registry m) \<and>
             (manager_state m \<noteq> Idle \<longrightarrow> manager_state m' \<noteq> Idle)"
proof (cases "manager_at w a")
  case None
  with cancel_relD(5)[OF assms(1)] assms(2) show ?thesis by simp
next
  case (Some m)
  with cancel_relD(6)[OF assms(1) Some] assms(2) show ?thesis
    by (auto simp: later_def)
qed

lemma wf_world_free:
  assumes "wf_world w"
    and "\<And>a m t. manager_at w a = Some m \<Longrightarrow> (t, CancelChild c) \<notin> set (registry m)"
  shows "wf_world (w\<lparr>heap := (heap w)[c := None]\<rparr>)"
proof -
  let ?w = "w\<lparr>heap := (heap w)[c := None]\<rparr>"
  have at: "manager_at ?w a = (if a = c then None else manager_at w a)" for a
    by (auto simp: manager_at_def)
  have ok: "callback_ok ?w cb" if "callback_ok w cb" "cb \<noteq> CancelChild c" for cb
    using that by (cases cb) (auto simp: live_def at)
  have "entries_ok ?w (registry m)" if "manager_at w a = Some m" for a m
  proof -
    from assms(1) that have e: "entries_ok w (registry m)" by (simp add: wf_world_iff)
    have "callback_ok ?w (snd kv)" if "kv \<in> set (registry m)" for kv
    proof -
      from e that have "callback_ok w (snd kv)" by (simp add: entries_ok_def list_all_iff)
      moreover from assms(2)[OF \<open>manager_at w a = Some m\<close>, of "fst kv"] that
      have "snd kv \<noteq> CancelChild c" by (cases kv) auto
      ultimately show ?thesis by (rule ok)
    qed
    with e show ?thesis by (simp add: entries_ok_def list_all_iff)
  qed
  then show ?thesis by (auto simp: wf_world_iff at split: if_splits)
qed

lemma set_delete_subset: "set (AList.delete k al) \<subseteq> set al"
  by (auto simp: AList.delete_eq)

lemma wf_world_erase:
  assumes "wf_world w" and "manager_at w a = Some m"
  shows "wf_world (set_manager a (erase_callback token m) w)"
proof -
  let ?w = "set_manager a (erase_callback token m) w"
  have l: "\<And>b. live ?w b = live w b"
    using assms(2) by (intro live_set_manager) (simp add: live_def)
  from assms have "entries_ok w (registry m)" by (simp add: wf_world_iff)
  then have "entries_ok w (AList.delete token (registry m))"
    using AList.distinct_delete[of "registry m" token]
    by (auto simp: entries_ok_def list_all_iff dest: set_mp[OF set_delete_subset])
  with assms show ?thesis
    by (auto simp: wf_world_iff manager_at_set_manager entries_ok_cong[OF l]
        registry_erase_callback split: if_splits)
qed

lemma step_Delete:
  "manager_at w c = Some m \<Longrightarrow>
   step w (Call (Delete c) # stk) =
     Inr (w, (case parent m of None \<Rightarrow> []
              | Some p \<Rightarrow> [Call (Deregister p (parent_token m))]) @ Dtor_state c # stk, None)"
  by (simp add: with_manager_def split: option.splits)

lemma step_Dtor_state:
  "manager_at w c = Some m \<Longrightarrow>
   step w (Dtor_state c # stk) =
     Inr (w, (if state m \<noteq> None then [Call (Cancel c)] else []) @ Dtor_free c # stk, None)"
  by (simp add: with_manager_def)

lemma step_Deregister_Idle:
  "manager_at w a = Some m \<Longrightarrow> manager_state m = Idle \<Longrightarrow>
   step w (Call (Deregister a token) # stk) =
     Inr (set_manager a (erase_callback token m) w, stk, Some (RBool True))"
  by (simp add: with_manager_def DeregisterCallback_locked_def manager_state_def split: if_splits)

text \<open>No registry holds the closure of the manager \<open>c\<close>, and the registry of \<open>p\<close> holds
  nothing under the token \<open>tk\<close>.\<close>

definition clean :: "addr \<Rightarrow> addr \<Rightarrow> CancellationToken \<Rightarrow> world \<Rightarrow> bool" where
  "clean c p tk w \<longleftrightarrow>
     (\<forall>a m kv. manager_at w a = Some m \<and> kv \<in> set (registry m) \<longrightarrow>
        snd kv \<noteq> CancelChild c \<and> (a = p \<longrightarrow> fst kv \<noteq> tk))"

lemma clean_cancel_rel:
  assumes "clean c p tk w" and "cancel_rel w stk w' stk'"
  shows "clean c p tk w'"
  unfolding clean_def
proof (intro allI impI)
  fix a m' kv assume "manager_at w' a = Some m' \<and> kv \<in> set (registry m')"
  with cancel_rel_registry[OF assms(2), of a m'] obtain m where
    "manager_at w a = Some m" "kv \<in> set (registry m)" by auto
  with assms(1) show "snd kv \<noteq> CancelChild c \<and> (a = p \<longrightarrow> fst kv \<noteq> tk)"
    unfolding clean_def by blast
qed

lemma clean_events:
  assumes "clean c p tk w" and "cancel_rel w [Call (Cancel b)] w' []"
    and "invoked w' = invoked w @ new" and "(a, t, cb) \<in> set new"
  shows "cb \<noteq> CancelChild c \<and> \<not> (a = p \<and> t = tk)"
proof -
  from cancel_rel_new_events[OF assms(2,3,4)] obtain m where
    "manager_at w a = Some m" "(t, cb) \<in> set (registry m)" by auto
  with assms(1) show ?thesis unfolding clean_def by fastforce
qed

lemma manager_at_free:
  "manager_at (w\<lparr>heap := (heap w)[c := None]\<rparr>) a = (if a = c then None else manager_at w a)"
  by (auto simp: manager_at_def)

text \<open>
  Claim C7. The destructor of a manager first calls \<^verbatim>\<open>DeregisterCallback\<close> on its parent
  with its own token (a manager without a parent skips this), and only then, and only if its registry block was ever allocated,
  runs its own \<^verbatim>\<open>StartCancel\<close>; then the object is gone. For a child of an idle parent,
  in a store where the closure of the child is registered nowhere else: the destructor
  returns, the registry of the parent has no entry under the token of the child, and
  neither the destructor nor a later \<^verbatim>\<open>StartCancel\<close> on the parent invokes the closure of
  the child or anything under its token. That \<^verbatim>\<open>StartCancel\<close> returns, so it has not
  touched the destroyed child, which stays absent from the store.
\<close>

theorem destroyed_child_is_never_invoked:
  assumes wf: "wf_world w" and c: "manager_at w c = Some cm" and par: "parent cm = Some p"
    and p: "manager_at w p = Some pm" and idle: "manager_state pm = Idle" and neq: "p \<noteq> c"
    and only: "\<forall>a m t. manager_at w a = Some m \<and> (t, CancelChild c) \<in> set (registry m) \<longrightarrow>
                 a = p \<and> t = parent_token cm"
  shows "\<exists>w1 w2 pm1 new.
     (\<forall>v b m stk. manager_at v b = Some m \<and> parent m = None \<longrightarrow>
        step v (Call (Delete b) # stk) = Inr (v, Dtor_state b # stk, None)) \<and>
     step w [Call (Delete c)] =
       Inr (w, [Call (Deregister p (parent_token cm)), Dtor_state c], None) \<and>
     step w [Call (Deregister p (parent_token cm)), Dtor_state c] =
       Inr (set_manager p (erase_callback (parent_token cm) pm) w, [Dtor_state c], Some (RBool True)) \<and>
     step (set_manager p (erase_callback (parent_token cm) pm) w) [Dtor_state c] =
       Inr (set_manager p (erase_callback (parent_token cm) pm) w,
            (if state cm \<noteq> None then [Call (Cancel c)] else []) @ [Dtor_free c], None) \<and>
     run (Delete c) w = Inr (w1, Some RVoid) \<and>
     manager_at w1 c = None \<and> wf_world w1 \<and>
     manager_at w1 p = Some pm1 \<and> parent_token cm \<notin> fst ` set (registry pm1) \<and>
     run (Cancel p) w1 = Inr (w2, Some RVoid) \<and>
     manager_at w2 c = None \<and>
     invoked w2 = invoked w @ new \<and>
     (\<forall>a t cb. (a, t, cb) \<in> set new \<longrightarrow>
        cb \<noteq> CancelChild c \<and> \<not> (a = p \<and> t = parent_token cm))"
proof -
  let ?tk = "parent_token cm"
  define wa where "wa = set_manager p (erase_callback ?tk pm) w"
  have s1: "step w [Call (Delete c)] = Inr (w, [Call (Deregister p ?tk), Dtor_state c], None)"
    using step_Delete[OF c, of "[]"] par by simp
  have s2: "step w [Call (Deregister p ?tk), Dtor_state c] = Inr (wa, [Dtor_state c], Some (RBool True))"
    using step_Deregister_Idle[OF p idle] by (simp add: wa_def)
  have ca: "manager_at wa c = Some cm"
    using c neq by (simp add: wa_def manager_at_set_manager)
  let ?stk = "(if state cm \<noteq> None then [Call (Cancel c)] else []) @ [Dtor_free c]"
  have s3: "step wa [Dtor_state c] = Inr (wa, ?stk, None)"
    using step_Dtor_state[OF ca, of "[]"] .
  have wfa: "wf_world wa" unfolding wa_def by (rule wf_world_erase[OF wf p])
  have cla: "clean c p ?tk wa"
    unfolding clean_def
  proof (intro allI impI)
    fix a m kv assume h: "manager_at wa a = Some m \<and> kv \<in> set (registry m)"
    show "snd kv \<noteq> CancelChild c \<and> (a = p \<longrightarrow> fst kv \<noteq> ?tk)"
    proof (cases "a = p")
      case True
      with h p have m: "m = erase_callback ?tk pm"
        by (simp add: wa_def manager_at_set_manager manager_at_length)
      with h have kv: "kv \<in> set (AList.delete ?tk (registry pm))"
        by (simp add: registry_erase_callback)
      then have "fst kv \<noteq> ?tk" by (auto simp: AList.delete_eq)
      moreover from kv have "kv \<in> set (registry pm)" by (auto simp: AList.delete_eq)
      with only p \<open>fst kv \<noteq> ?tk\<close> have "snd kv \<noteq> CancelChild c"
        by (cases kv) auto
      ultimately show ?thesis by simp
    next
      case False
      with h have "manager_at w a = Some m" by (simp add: wa_def manager_at_set_manager)
      with only h False show ?thesis by (cases kv) auto
    qed
  qed
  have "\<exists>wb. exec wa ?stk = exec wb [Dtor_free c] \<and> wf_world wb \<and>
          cancel_rel wa [Call (Cancel c)] wb []"
  proof (cases "state cm = None")
    case True
    have "cancel_rel wa [Call (Cancel c)] wa []" by (rule cancel_rel_pop) simp_all
    with True wfa show ?thesis by auto
  next
    case False
    from run_Cancel_total[OF wfa ca] obtain wb where
      "exec wa [Call (Cancel c)] = Inr (wb, Some RVoid)" "wf_world wb"
      "cancel_rel wa [Call (Cancel c)] wb []"
      by (auto simp: run_def)
    with False exec_append[of "[Call (Cancel c)]" wa "[Dtor_free c]"] show ?thesis
      by auto
  qed
  then obtain wb where eb: "exec wa ?stk = exec wb [Dtor_free c]" and wfb: "wf_world wb"
    and relb: "cancel_rel wa [Call (Cancel c)] wb []"
    by blast
  define w1 where "w1 = wb\<lparr>heap := (heap wb)[c := None]\<rparr>"
  from cancel_relD(6)[OF relb ca] obtain cmb where cb: "manager_at wb c = Some cmb" by blast
  then have s4: "step wb [Dtor_free c] = Inr (w1, [], Some RVoid)"
    by (simp add: with_manager_def w1_def)
  have "exec w [Call (Delete c)] = exec w [Call (Deregister p ?tk), Dtor_state c]"
    by (rule exec_continue[OF s1]) simp
  also have "\<dots> = exec wa [Dtor_state c]"
    by (rule exec_continue[OF s2]) simp
  also have "\<dots> = exec wa ?stk"
    by (rule exec_continue[OF s3]) simp
  also have "\<dots> = exec wb [Dtor_free c]" by (rule eb)
  also have "\<dots> = Inr (w1, Some RVoid)" by (rule exec_return[OF s4])
  finally have run1: "run (Delete c) w = Inr (w1, Some RVoid)"
    by (simp add: run_def)
  have clb: "clean c p ?tk wb" by (rule clean_cancel_rel[OF cla relb])
  have wf1: "wf_world w1"
    unfolding w1_def
  proof (rule wf_world_free[OF wfb])
    fix a m t assume "manager_at wb a = Some m"
    with clb show "(t, CancelChild c) \<notin> set (registry m)"
      unfolding clean_def by fastforce
  qed
  have at1: "manager_at w1 a = (if a = c then None else manager_at wb a)" for a
    by (simp add: w1_def manager_at_free)
  have cl1: "clean c p ?tk w1"
    using clb unfolding clean_def at1 by (auto split: if_splits)
  have pa: "manager_at wa p = Some (erase_callback ?tk pm)"
    using p by (simp add: wa_def manager_at_set_manager manager_at_length)
  from cancel_relD(6)[OF relb pa] obtain pm1 where pb: "manager_at wb p = Some pm1" by blast
  with neq have p1: "manager_at w1 p = Some pm1" by (simp add: at1)
  have tk1: "?tk \<notin> fst ` set (registry pm1)"
    using cl1 p1 unfolding clean_def by fastforce
  from run_Cancel_total[OF wf1 p1] obtain w2 where
    run2: "run (Cancel p) w1 = Inr (w2, Some RVoid)" and rel2: "cancel_rel w1 [Call (Cancel p)] w2 []"
    by blast
  have c2: "manager_at w2 c = None"
    using cancel_relD(5)[OF rel2, of c] by (simp add: at1)
  from cancel_relD(3)[OF relb] obtain n1 where n1: "invoked wb = invoked wa @ n1" by blast
  from cancel_relD(3)[OF rel2] obtain n2 where n2: "invoked w2 = invoked w1 @ n2" by blast
  have i1: "invoked w1 = invoked wb" by (simp add: w1_def)
  have ia: "invoked wa = invoked w" by (simp add: wa_def)
  have new: "invoked w2 = invoked w @ (n1 @ n2)" using n1 n2 i1 ia by simp
  have ev: "cb \<noteq> CancelChild c \<and> \<not> (a = p \<and> t = ?tk)" if "(a, t, cb) \<in> set (n1 @ n2)" for a t cb
  proof -
    from that consider "(a, t, cb) \<in> set n1" | "(a, t, cb) \<in> set n2" by auto
    then show ?thesis
    proof cases
      case 1
      from clean_events[OF cla relb n1 1] show ?thesis .
    next
      case 2
      from clean_events[OF cl1 rel2 n2 2] show ?thesis .
    qed
  qed
  have s0: "\<forall>v b m stk. manager_at v b = Some m \<and> parent m = None \<longrightarrow>
        step v (Call (Delete b) # stk) = Inr (v, Dtor_state b # stk, None)"
    by (simp add: with_manager_def)
  from s0 s1 s2 s3 run1 wf1 p1 tk1 run2 c2 new ev show ?thesis
    unfolding wa_def[symmetric]
    by (intro exI[of _ w1] exI[of _ w2] exI[of _ pm1] exI[of _ "n1 @ n2"]) (simp add: at1)
qed

theorem destroyed_child_is_never_invoked_witness:
  "wf_world family_world \<and> manager_at family_world 1 = Some family_child \<and>
   parent family_child = Some 0 \<and> parent_token family_child = 1 \<and>
   manager_at family_world 0 = Some family_parent \<and> manager_state family_parent = Idle \<and>
   (\<exists>w1 w2 new.
      run (Delete 1) family_world = Inr (w1, Some RVoid) \<and> manager_at w1 1 = None \<and>
      run (Cancel 0) w1 = Inr (w2, Some RVoid) \<and> manager_at w2 1 = None \<and>
      invoked w2 = invoked family_world @ new \<and>
      (0, 1, CancelChild 1) \<notin> set new)"
proof -
  have c: "manager_at family_world 1 = Some family_child"
    and p: "manager_at family_world 0 = Some family_parent"
    by (simp_all add: manager_at_def family_world_def)
  have par: "parent family_child = Some 0" and tk: "parent_token family_child = 1"
    by (simp_all add: family_child_def)
  have idle: "manager_state family_parent = Idle"
    by (simp add: manager_state_def family_parent_def)
  have only: "\<forall>a m t. manager_at family_world a = Some m \<and> (t, CancelChild 1) \<in> set (registry m) \<longrightarrow>
                 a = 0 \<and> t = parent_token family_child"
    by (auto simp: manager_at_def family_world_def family_parent_def family_child_def
        registry_def nth_Cons split: if_splits nat.splits)
  from destroyed_child_is_never_invoked[OF wf_family_world c par p idle _ only]
  obtain w1 w2 new where
    "run (Delete 1) family_world = Inr (w1, Some RVoid)" "manager_at w1 1 = None"
    "run (Cancel 0) w1 = Inr (w2, Some RVoid)" "manager_at w2 1 = None"
    "invoked w2 = invoked family_world @ new"
    "\<forall>a t cb. (a, t, cb) \<in> set new \<longrightarrow> cb \<noteq> CancelChild 1 \<and> \<not> (a = 0 \<and> t = parent_token family_child)"
    by auto
  then show ?thesis
    using wf_family_world c p par tk idle by blast
qed

section \<open>What every reachable configuration satisfies\<close>

text \<open>
  What holds in every configuration the threads can reach. At most one loop of
  \<^verbatim>\<open>StartCancel\<close> is in flight for a manager, and then the manager is cancelling; the
  flags of a manager agree with each other and with its notification; a loop has captured
  a notification exactly when the registry block exists, and a loop without one has no
  callbacks and is on top of its stack.
\<close>

fun is_loop :: "addr \<Rightarrow> frame \<Rightarrow> bool" where
  "is_loop a (StartCancel_loop b cbs n) = (b = a)"
| "is_loop a _ = False"

definition loops :: "addr \<Rightarrow> frame list \<Rightarrow> nat" where
  "loops a stk = length (filter (is_loop a) stk)"

definition nloops :: "addr \<Rightarrow> frame list list \<Rightarrow> nat" where
  "nloops a ts = sum_list (map (loops a) ts)"

definition cap :: "world \<Rightarrow> addr \<Rightarrow> nat" where
  "cap w a =
     (if a < length (heap w)
      then (case heap w ! a of
              None \<Rightarrow> 1
            | Some m \<Rightarrow> if manager_state m = Cancelling then 1 else 0)
      else 0)"

fun frame_inv :: "world \<Rightarrow> frame \<Rightarrow> bool" where
  "frame_inv w (StartCancel_loop a cbs n) =
     ((case manager_at w a of None \<Rightarrow> True | Some m \<Rightarrow> n = (state m \<noteq> None)) \<and>
      (n \<or> cbs = []))"
| "frame_inv w (StartCancel_notify a) =
     (a < length (heap w) \<and>
      (case manager_at w a of None \<Rightarrow> True | Some m \<Rightarrow> manager_state m = Cancelled))"
| "frame_inv w f = True"

fun silent :: "frame \<Rightarrow> bool" where
  "silent (StartCancel_loop a cbs n) = (\<not> n)"
| "silent f = False"

definition stack_inv :: "frame list \<Rightarrow> bool" where
  "stack_inv stk = list_all (\<lambda>f. \<not> silent f) (tl stk)"

definition manager_inv :: "CancellationManager \<Rightarrow> bool" where
  "manager_inv m =
     ((if is_cancelled m then \<not> is_cancelling m else True) \<and>
      (if HasBeenNotified m then is_cancelled m else True))"

definition consistent :: "config \<Rightarrow> bool" where
  "consistent c =
     (case c of (w, ts) \<Rightarrow>
        (\<forall>a. nloops a ts \<le> cap w a) \<and>
        (\<forall>a m. manager_at w a = Some m \<longrightarrow> manager_inv m) \<and>
        (\<forall>stk \<in> set ts. stack_inv stk \<and> (\<forall>f \<in> set stk. frame_inv w f)))"

lemma sum_list_map_update:
  fixes f :: "'a \<Rightarrow> nat"
  shows "i < length xs \<Longrightarrow>
    sum_list (map f (xs[i := x])) + f (xs ! i) = sum_list (map f xs) + f x"
proof (induction xs arbitrary: i)
  case Nil then show ?case by simp
next
  case (Cons y xs)
  then show ?case by (cases i) (auto simp: add.assoc)
qed

lemma nloops_update:
  "i < length ts \<Longrightarrow> nloops a (ts[i := stk]) + loops a (ts ! i) = nloops a ts + loops a stk"
  unfolding nloops_def by (rule sum_list_map_update)

lemma nloops_ge:
  assumes "stk \<in> set ts" and "f \<in> set stk" and "is_loop a f"
  shows "1 \<le> nloops a ts"
proof -
  from assms(2,3) have "filter (is_loop a) stk \<noteq> []"
    by (auto simp: filter_empty_conv)
  then have "1 \<le> loops a stk" by (cases "filter (is_loop a) stk") (auto simp: loops_def)
  moreover from assms(1) have "loops a stk \<le> nloops a ts"
    unfolding nloops_def by (simp add: member_le_sum_list)
  ultimately show ?thesis by simp
qed

lemma consistent_initial: "consistent initial"
  by (simp add: consistent_def initial_def nloops_def manager_at_def)

lemma consistent_spawn: "consistent (w, ts) \<Longrightarrow> consistent (w, ts @ [[]])"
  by (auto simp: consistent_def nloops_def loops_def stack_inv_def)

lemma set_update_cases:
  assumes "stk \<in> set (ts[i := s])"
  shows "stk = s \<or> stk \<in> set ts"
  using assms set_update_subset_insert[of ts i s] by auto

lemma consistent_step:
  assumes consistent: "consistent (w, ts)" and i: "i < length ts" and top: "ts ! i = f # rest"
    and loops: "\<And>a. loops a new + cap w a \<le> cap w' a + (if is_loop a f then 1 else 0)"
    and mgr: "\<And>a m'. manager_at w' a = Some m' \<Longrightarrow> manager_inv m'"
    and newf: "\<And>g. g \<in> set new \<Longrightarrow> frame_inv w' g"
    and oldf: "\<And>g stk. stk \<in> set ts \<Longrightarrow> g \<in> set stk \<Longrightarrow> frame_inv w g \<Longrightarrow> frame_inv w' g"
    and stack: "list_all (\<lambda>g. \<not> silent g) (tl new)"
  shows "consistent (w', ts[i := new @ rest])"
proof -
  have "nloops a (ts[i := new @ rest]) \<le> cap w' a" for a
  proof -
    from consistent have "nloops a ts \<le> cap w a" by (simp add: consistent_def)
    moreover have "loops a (f # rest) = (if is_loop a f then 1 else 0) + loops a rest"
      by (simp add: loops_def)
    moreover have "loops a (new @ rest) = loops a new + loops a rest"
      by (simp add: loops_def)
    ultimately show ?thesis
      using nloops_update[OF i, of a "new @ rest"] loops[of a] top by simp
  qed
  moreover have "stack_inv stk \<and> (\<forall>g \<in> set stk. frame_inv w' g)" if "stk \<in> set (ts[i := new @ rest])" for stk
  proof -
    from i top have fr: "f # rest \<in> set ts" by (metis nth_mem)
    from set_update_cases[OF that] show ?thesis
    proof
      assume s: "stk = new @ rest"
      from consistent fr have r: "list_all (\<lambda>g. \<not> silent g) rest" "\<forall>g \<in> set rest. frame_inv w g"
        by (auto simp: consistent_def stack_inv_def)
      have "stack_inv (new @ rest)"
      proof (cases new)
        case Nil
        with r(1) show ?thesis by (cases rest) (auto simp: stack_inv_def)
      next
        case (Cons g new')
        with r(1) stack show ?thesis by (simp add: stack_inv_def)
      qed
      moreover have "frame_inv w' g" if "g \<in> set rest" for g
        using oldf[OF fr, of g] that r(2) by simp
      ultimately show ?thesis using s newf by auto
    next
      assume s: "stk \<in> set ts"
      with consistent have "stack_inv stk" "\<forall>g \<in> set stk. frame_inv w g" by (auto simp: consistent_def)
      with oldf[OF s] show ?thesis by blast
    qed
  qed
  ultimately show ?thesis using mgr by (simp add: consistent_def)
qed

lemma cap_manager_at:
  "manager_at w a = Some m \<Longrightarrow> cap w a = (if manager_state m = Cancelling then 1 else 0)"
  by (auto simp: cap_def manager_at_def split: if_splits)

lemma cap_set_manager:
  "manager_at w a = Some m \<Longrightarrow>
   cap (set_manager a m' w) b =
     (if b = a then (if manager_state m' = Cancelling then 1 else 0) else cap w b)"
  by (auto simp: cap_def set_manager_def manager_at_def split: if_splits)

lemma cap_beyond: "length (heap w) \<le> a \<Longrightarrow> cap w a = 0"
  by (simp add: cap_def)

lemma loop_frame_Cancelling:
  assumes "consistent (w, ts)" and "stk \<in> set ts" and "g \<in> set stk" and "is_loop a g"
  shows "a < length (heap w)"
    and "manager_at w a = Some m \<Longrightarrow> manager_state m = Cancelling"
proof -
  from assms(1) nloops_ge[OF assms(2,3,4)] have c: "1 \<le> cap w a"
    by (auto simp: consistent_def intro: order_trans)
  then show "a < length (heap w)" by (auto simp: cap_def split: if_splits)
  show "manager_state m = Cancelling" if "manager_at w a = Some m"
    using c cap_manager_at[OF that] by (auto split: if_splits)
qed

lemma consistent_step_same:
  assumes consistent: "consistent (w, ts)" and i: "i < length ts" and top: "ts ! i = f # rest"
    and loops: "\<And>a. loops a new \<le> (if is_loop a f then 1 else 0)"
    and newf: "\<And>g. g \<in> set new \<Longrightarrow> frame_inv w g"
    and stack: "list_all (\<lambda>g. \<not> silent g) (tl new)"
  shows "consistent (w, ts[i := new @ rest])"
proof (rule consistent_step[OF consistent i top])
  show "loops a new + cap w a \<le> cap w a + (if is_loop a f then 1 else 0)" for a
    using loops[of a] by simp
  show "manager_inv m'" if "manager_at w a = Some m'" for a m'
    using consistent that by (auto simp: consistent_def)
qed (use newf stack in auto)

lemma consistent_step_update:
  assumes consistent: "consistent (w, ts)" and i: "i < length ts" and top: "ts ! i = f # rest"
    and m: "manager_at w a = Some m" and mi: "manager_inv m'"
    and loops: "loops a new + (if manager_state m = Cancelling then 1 else 0) \<le>
                (if manager_state m' = Cancelling then 1 else 0) + (if is_loop a f then 1 else 0)"
    and loops': "\<And>b. b \<noteq> a \<Longrightarrow> loops b new \<le> (if is_loop b f then 1 else 0)"
    and newf: "\<And>g. g \<in> set new \<Longrightarrow> frame_inv (set_manager a m' w) g"
    and keep: "(state m' = None) = (state m = None) \<or> manager_state m \<noteq> Cancelling"
    and keep': "manager_state m = Cancelled \<Longrightarrow> manager_state m' = Cancelled"
    and stack: "list_all (\<lambda>g. \<not> silent g) (tl new)"
  shows "consistent (set_manager a m' w, ts[i := new @ rest])"
proof (rule consistent_step[OF consistent i top])
  let ?w = "set_manager a m' w"
  show "loops b new + cap w b \<le> cap ?w b + (if is_loop b f then 1 else 0)" for b
  proof (cases "b = a")
    case True
    with loops show ?thesis by (simp add: cap_set_manager[OF m] cap_manager_at[OF m])
  next
    case False
    with loops'[of b] show ?thesis by (simp add: cap_set_manager[OF m])
  qed
  show "manager_inv x" if "manager_at ?w b = Some x" for b x
    using consistent that mi by (auto simp: consistent_def manager_at_set_manager split: if_splits)
  show "frame_inv ?w g" if s: "stk \<in> set ts" and g: "g \<in> set stk" and fi: "frame_inv w g" for g stk
  proof (cases g)
    case (StartCancel_loop b cbs n)
    show ?thesis
    proof (cases "b = a")
      case True
      from loop_frame_Cancelling(2)[OF consistent s g, of a, OF _ m] StartCancel_loop True
      have "manager_state m = Cancelling" by simp
      with keep have "(state m' = None) = (state m = None)" by simp
      with fi m StartCancel_loop True show ?thesis
        by (auto simp: manager_at_set_manager manager_at_length)
    next
      case False
      with fi StartCancel_loop show ?thesis by (simp add: manager_at_set_manager)
    qed
  next
    case (StartCancel_notify b)
    with fi m keep' show ?thesis
      by (auto simp: manager_at_set_manager split: if_splits)
  qed simp_all
qed (use newf stack in auto)

lemma consistent_issued: "consistent (w\<lparr>issued := x\<rparr>, ts) = consistent (w, ts)"
proof -
  have "frame_inv (w\<lparr>issued := x\<rparr>) f = frame_inv w f" for f
    by (cases f) (simp_all add: manager_at_def)
  then show ?thesis by (simp add: consistent_def cap_def manager_at_def)
qed

lemma consistent_invoked: "consistent (w\<lparr>invoked := x\<rparr>, ts) = consistent (w, ts)"
proof -
  have "frame_inv (w\<lparr>invoked := x\<rparr>) f = frame_inv w f" for f
    by (cases f) (simp_all add: manager_at_def)
  then show ?thesis by (simp add: consistent_def cap_def manager_at_def)
qed

lemma consistent_append:
  assumes consistent: "consistent (w, ts)" and mi: "manager_inv m" and st: "manager_state m \<noteq> Cancelling"
  shows "consistent (w\<lparr>heap := heap w @ [Some m]\<rparr>, ts)"
proof -
  let ?w = "w\<lparr>heap := heap w @ [Some m]\<rparr>"
  have at: "manager_at ?w a = (if a = length (heap w) then Some m else manager_at w a)" for a
    by (auto simp: manager_at_def nth_append)
  have "cap ?w a = cap w a" for a
    using st by (auto simp: cap_def nth_append)
  moreover have "frame_inv ?w g" if s: "stk \<in> set ts" and g: "g \<in> set stk" and fi: "frame_inv w g" for g stk
  proof (cases g)
    case (StartCancel_loop b cbs n)
    with loop_frame_Cancelling(1)[OF consistent s g, of b] fi show ?thesis
      by (simp add: at)
  next
    case (StartCancel_notify b)
    with fi show ?thesis by (auto simp: at)
  qed simp_all
  ultimately show ?thesis
    using consistent mi unfolding consistent_def by (auto simp: at)
qed

lemma consistent_free:
  assumes consistent: "consistent (w, ts)"
  shows "consistent (w\<lparr>heap := (heap w)[a := None]\<rparr>, ts)"
proof -
  let ?w = "w\<lparr>heap := (heap w)[a := None]\<rparr>"
  have at: "manager_at ?w b = (if b = a then None else manager_at w b)" for b
    by (rule manager_at_free)
  have "cap w b \<le> cap ?w b" for b
    by (cases "b = a") (auto simp: cap_def split: option.splits)
  moreover have "frame_inv ?w g" if "frame_inv w g" for g
    using that by (cases g) (auto simp: at)
  ultimately show ?thesis
    using consistent unfolding consistent_def by (auto simp: at intro: order_trans)
qed

lemma manager_inv_simps:
  "manager_inv new_manager"
  "manager_inv (child_manager p t ok)"
  "manager_inv m \<Longrightarrow> manager_inv (snd (get_cancellation_token m))"
  "manager_inv m \<Longrightarrow> manager_state m = Idle \<Longrightarrow> manager_inv (store_callback t cb m)"
  "manager_inv m \<Longrightarrow> manager_inv (erase_callback t m)"
  "manager_inv m \<Longrightarrow> manager_state m = Idle \<Longrightarrow>
     manager_inv (m\<lparr>is_cancelling := True, state := map_option (\<lambda>s. s\<lparr>callbacks := []\<rparr>) (state m)\<rparr>)"
  "manager_inv m \<Longrightarrow> manager_inv (StartCancel_finish m)"
  "manager_inv m \<Longrightarrow> manager_state m = Cancelled \<Longrightarrow> manager_inv (Notify m)"
  by (auto simp: manager_inv_def new_manager_def child_manager_def get_cancellation_token_def
      store_callback_def erase_callback_def StartCancel_finish_def Notify_def HasBeenNotified_def
      manager_state_def split: option.splits if_splits)

lemma erase_callback_simps [simp]:
  "manager_state (erase_callback t m) = manager_state m"
  "(state (erase_callback t m) = None) = (state m = None)"
  by (auto simp: erase_callback_def manager_state_def split: option.splits)

lemma state_None_simps [simp]:
  "(state (StartCancel_finish m) = None) = (state m = None)"
  "(state (Notify m) = None) = (state m = None)"
  by (auto simp: StartCancel_finish_def Notify_def split: option.splits)

lemma DeregisterCallback_locked_eq:
  "DeregisterCallback_locked token m =
     (case manager_state m of
        Cancelled \<Rightarrow> (Return False, m)
      | Cancelling \<Rightarrow> (if state m = None then Return False else WaitForNotification, m)
      | Idle \<Rightarrow> (Return True, erase_callback token m))"
  by (auto simp: DeregisterCallback_locked_def manager_state_def split: option.splits)

lemma TryDeregisterCallback_eq:
  "TryDeregisterCallback token m =
     (if manager_state m = Idle then (True, erase_callback token m) else (False, m))"
  by (auto simp: TryDeregisterCallback_def manager_state_def)

lemma loops_simps [simp]:
  "loops a [] = 0"
  "loops a (f # stk) = (if is_loop a f then 1 else 0) + loops a stk"
  by (simp_all add: loops_def)

lemma is_loop_invoke [simp]: "\<not> is_loop a (invoke cb)"
  by (cases cb) auto

lemma silent_invoke [simp]: "\<not> silent (invoke cb)"
  by (cases cb) auto

lemma frame_inv_invoke [simp]: "frame_inv w (invoke cb)"
  by (cases cb) auto

lemma consistent_call_step:
  assumes consistent: "consistent (w, ts)" and i: "i < length ts" and top: "ts ! i = Call c # rest"
    and s: "step_call w c rest = Inr (w', stk', r)"
  shows "consistent (w', ts[i := stk'])"
proof (cases c)
  case (New po)
  show ?thesis
  proof (cases po)
    case None
    from consistent_step_same[OF consistent i top, of "[]"] have "consistent (w, ts[i := rest])" by simp
    moreover have "manager_state new_manager \<noteq> Cancelling"
      by (simp add: new_manager_def manager_state_def)
    ultimately have "consistent (w\<lparr>heap := heap w @ [Some new_manager]\<rparr>, ts[i := rest])"
      by (intro consistent_append) (simp_all add: manager_inv_simps)
    with New None s show ?thesis by auto
  next
    case (Some p)
    with New s obtain pm where pm: "manager_at w p = Some pm"
      by (auto simp: with_manager_def split: option.splits)
    have "consistent (set_manager p (snd (get_cancellation_token pm)) w,
               ts[i := [Ctor_register p (next_cancellation_token pm)] @ rest])"
      using consistent pm by (intro consistent_step_update[OF consistent i top pm])
        (auto simp: manager_inv_simps consistent_def)
    with New Some s pm show ?thesis
      by (auto simp: with_manager_def consistent_issued case_prod_beta)
  qed
next
  case (Delete a)
  with s obtain m where m: "manager_at w a = Some m"
    by (auto simp: with_manager_def split: option.splits)
  show ?thesis
  proof (cases "parent m")
    case None
    have "consistent (w, ts[i := [Dtor_state a] @ rest])"
      by (rule consistent_step_same[OF consistent i top]) auto
    with None Delete s m show ?thesis by (auto simp: with_manager_def)
  next
    case (Some p)
    have "consistent (w, ts[i := [Call (Deregister p (parent_token m)), Dtor_state a] @ rest])"
      by (rule consistent_step_same[OF consistent i top]) auto
    with Some Delete s m show ?thesis by (auto simp: with_manager_def)
  qed
next
  case (GetToken a)
  with s obtain m where m: "manager_at w a = Some m"
    by (auto simp: with_manager_def split: option.splits)
  have "consistent (set_manager a (snd (get_cancellation_token m)) w, ts[i := [] @ rest])"
    using consistent m by (intro consistent_step_update[OF consistent i top m])
      (auto simp: manager_inv_simps consistent_def)
  with GetToken s m show ?thesis
    by (auto simp: with_manager_def consistent_issued case_prod_beta)
next
  case (Register a t cb)
  with s obtain m where m: "manager_at w a = Some m" and t: "t < next_cancellation_token m"
    by (auto simp: with_manager_def RegisterCallback_def split: option.splits if_splits)
  have "consistent (set_manager a (if manager_state m = Idle then store_callback t cb m else m) w,
             ts[i := [] @ rest])"
    using consistent m by (intro consistent_step_update[OF consistent i top m])
      (auto simp: manager_inv_simps consistent_def)
  with Register s m show ?thesis
    by (auto simp: with_manager_def RegisterCallback_eq[OF t])
next
  case (Deregister a t)
  with s obtain m where m: "manager_at w a = Some m"
    by (auto simp: with_manager_def split: option.splits)
  show ?thesis
  proof (cases "manager_state m")
    case Idle
    have "consistent (set_manager a (erase_callback t m) w, ts[i := [] @ rest])"
      using consistent m by (intro consistent_step_update[OF consistent i top m])
        (auto simp: manager_inv_simps consistent_def)
    with Idle Deregister s m show ?thesis
      by (auto simp: with_manager_def DeregisterCallback_locked_eq)
  next
    case Cancelling
    have "consistent (w, ts[i := (if state m = None then [] else [DeregisterCallback_wait a]) @ rest])"
      by (rule consistent_step_same[OF consistent i top]) (auto split: if_splits)
    with Cancelling Deregister s m show ?thesis
      by (auto simp: with_manager_def DeregisterCallback_locked_eq set_manager_same split: if_splits)
  next
    case Cancelled
    from consistent_step_same[OF consistent i top, of "[]"] have "consistent (w, ts[i := rest])" by simp
    with Cancelled Deregister s m show ?thesis
      by (auto simp: with_manager_def DeregisterCallback_locked_eq set_manager_same)
  qed
next
  case (TryDeregister a t)
  with s obtain m where m: "manager_at w a = Some m"
    by (auto simp: with_manager_def split: option.splits)
  have "consistent (set_manager a (if manager_state m = Idle then erase_callback t m else m) w,
             ts[i := [] @ rest])"
    using consistent m by (intro consistent_step_update[OF consistent i top m])
      (auto simp: manager_inv_simps consistent_def)
  with TryDeregister s m show ?thesis
    by (auto simp: with_manager_def TryDeregisterCallback_eq split: if_splits)
next
  case (Cancel a)
  with s obtain m where m: "manager_at w a = Some m"
    by (auto simp: with_manager_def split: option.splits)
  show ?thesis
  proof (cases "manager_state m = Idle")
    case True
    let ?m = "m\<lparr>is_cancelling := True, state := map_option (\<lambda>s. s\<lparr>callbacks := []\<rparr>) (state m)\<rparr>"
    have "consistent (set_manager a ?m w, ts[i := [StartCancel_loop a (registry m) (state m \<noteq> None)] @ rest])"
      using consistent m True by (intro consistent_step_update[OF consistent i top m])
        (auto simp: manager_inv_simps consistent_def manager_at_set_manager manager_at_length registry_def
          split: option.splits)
    with True Cancel s m show ?thesis
      by (auto simp: with_manager_def StartCancel_locked_Idle)
  next
    case False
    from consistent_step_same[OF consistent i top, of "[]"] have "consistent (w, ts[i := rest])" by simp
    with False Cancel s m show ?thesis
      by (auto simp: with_manager_def StartCancel_locked_not_Idle)
  qed
next
  case (Query a)
  from consistent_step_same[OF consistent i top, of "[]"] have "consistent (w, ts[i := rest])" by simp
  with Query s show ?thesis
    by (auto simp: with_manager_def split: option.splits)
qed

lemma consistent_thread_step:
  assumes consistent: "consistent (w, ts)" and i: "i < length ts"
    and s: "step w (ts ! i) = Inr (w', stk', r)"
  shows "consistent (w', ts[i := stk'])"
proof (cases "ts ! i")
  case Nil
  with s show ?thesis by simp
next
  case (Cons f rest)
  note top = Cons
  have fi: "frame_inv w f" and inth: "f # rest \<in> set ts"
    using consistent i top by (auto simp: consistent_def dest: nth_mem)
  show ?thesis
  proof (cases f)
    case (Call c)
    with consistent_call_step[OF consistent i top[unfolded Call]] s top show ?thesis by simp
  next
    case (Ctor_register p t)
    with s top obtain pm where pm: "manager_at w p = Some pm" and t: "t < next_cancellation_token pm"
      by (auto simp: with_manager_def RegisterCallback_def split: option.splits if_splits)
    let ?pm = "if manager_state pm = Idle then store_callback t (CancelChild (length (heap w))) pm else pm"
    let ?c = "child_manager p t (manager_state pm = Idle)"
    have "consistent (set_manager p ?pm w, ts[i := [] @ rest])"
      using consistent pm by (intro consistent_step_update[OF consistent i top pm])
        (auto simp: manager_inv_simps consistent_def)
    moreover have "manager_state ?c \<noteq> Cancelling"
      by (simp add: child_manager_def manager_state_def)
    ultimately have "consistent ((set_manager p ?pm w)\<lparr>heap := heap (set_manager p ?pm w) @ [Some ?c]\<rparr>,
        ts[i := rest])"
      by (intro consistent_append) (simp_all add: manager_inv_simps)
    with Ctor_register s top pm show ?thesis
      by (auto simp: with_manager_def RegisterCallback_eq[OF t] child_manager_def)
  next
    case (StartCancel_loop a cbs n)
    show ?thesis
    proof (cases cbs)
      case Nil
      with StartCancel_loop s top obtain m where m: "manager_at w a = Some m"
        by (auto simp: with_manager_def split: option.splits)
      from loop_frame_Cancelling(2)[OF consistent inth, of f a, OF _ _ m] StartCancel_loop
      have c: "manager_state m = Cancelling" by simp
      have "consistent (set_manager a (StartCancel_finish m) w,
              ts[i := (if n then [StartCancel_notify a] else []) @ rest])"
        using consistent m c StartCancel_loop fi
        by (intro consistent_step_update[OF consistent i top m])
          (auto simp: manager_inv_simps consistent_def manager_at_set_manager manager_at_length)
      with Nil StartCancel_loop s top m show ?thesis
        by (auto simp: with_manager_def)
    next
      case (Cons kv cbs')
      have "consistent (w, ts[i := [invoke (snd kv), StartCancel_loop a cbs' n] @ rest])"
        using fi StartCancel_loop Cons
        by (intro consistent_step_same[OF consistent i top]) (auto split: option.splits)
      with Cons StartCancel_loop s top show ?thesis
        by (auto simp: consistent_invoked)
    qed
  next
    case (External_body x)
    from consistent_step_same[OF consistent i top, of "[]"] have "consistent (w, ts[i := rest])" by simp
    with External_body s top show ?thesis by auto
  next
    case (StartCancel_notify a)
    with s top obtain m where m: "manager_at w a = Some m"
      by (auto simp: with_manager_def split: option.splits)
    with fi StartCancel_notify have c: "manager_state m = Cancelled" by simp
    have "consistent (set_manager a (Notify m) w, ts[i := [] @ rest])"
      using consistent m c
      by (intro consistent_step_update[OF consistent i top m])
        (auto simp: manager_inv_simps consistent_def)
    with StartCancel_notify s top m show ?thesis
      by (auto simp: with_manager_def)
  next
    case (DeregisterCallback_wait a)
    from consistent_step_same[OF consistent i top, of "[]"] have "consistent (w, ts[i := rest])" by simp
    with DeregisterCallback_wait s top show ?thesis
      by (auto simp: with_manager_def split: option.splits if_splits)
  next
    case (Dtor_state a)
    with s top obtain m where m: "manager_at w a = Some m"
      by (auto simp: with_manager_def split: option.splits)
    have "consistent (w, ts[i := (if state m \<noteq> None then [Call (Cancel a), Dtor_free a] else [Dtor_free a]) @ rest])"
      by (rule consistent_step_same[OF consistent i top]) (auto split: if_splits)
    with Dtor_state s top m show ?thesis
      by (auto simp: with_manager_def split: if_splits)
  next
    case (Dtor_free a)
    from consistent_step_same[OF consistent i top, of "[]"] have "consistent (w, ts[i := rest])" by simp
    from consistent_free[OF this, of a] Dtor_free s top show ?thesis
      by (auto simp: with_manager_def split: option.splits)
  qed
qed

lemma consistent_begin_call:
  assumes "consistent (w, ts)" and i: "i < length ts" and e: "ts ! i = []"
  shows "consistent (w, ts[i := [Call c]])"
proof -
  have "nloops a (ts[i := [Call c]]) = nloops a ts" for a
    using nloops_update[OF i, of a "[Call c]"] e by simp
  moreover have "stack_inv stk \<and> (\<forall>g \<in> set stk. frame_inv w g)" if "stk \<in> set (ts[i := [Call c]])" for stk
    using set_update_cases[OF that] assms(1) by (auto simp: consistent_def stack_inv_def)
  ultimately show ?thesis using assms(1) by (simp add: consistent_def)
qed

lemma consistent_cstep:
  assumes "consistent c" and "cstep c c'"
  shows "consistent c'"
  using assms(2,1)
proof (cases rule: cstep.cases)
  case (spawn w ts)
  with assms(1) show ?thesis by (simp add: consistent_spawn)
next
  case (begin_call i ts w cl)
  with assms(1) show ?thesis by (simp add: consistent_begin_call)
next
  case (callback_call i ts x rest w cl)
  have "consistent (w, ts[i := [Call cl, External_body x] @ rest])" if "consistent (w, ts)"
    by (rule consistent_step_same[OF that callback_call(3,4)]) auto
  with callback_call assms(1) show ?thesis by simp
next
  case (thread_step i ts w w' stk' r)
  with assms(1) consistent_thread_step show ?thesis by blast
qed

lemma reachable_consistent: "reachable c \<Longrightarrow> consistent c"
  by (induction rule: reachable.induct) (auto intro: consistent_initial consistent_cstep)

text \<open>The steps that change the flags or the notification of a manager.\<close>

definition unchanged :: "CancellationManager \<Rightarrow> CancellationManager \<Rightarrow> bool" where
  "unchanged m m' \<longleftrightarrow>
     is_cancelling m' = is_cancelling m \<and> is_cancelled m' = is_cancelled m \<and>
     HasBeenNotified m' = HasBeenNotified m"

lemma unchanged_simps [simp]:
  "unchanged m m"
  "unchanged m (snd (get_cancellation_token m))"
  "unchanged m (erase_callback t m)"
  "unchanged m (store_callback t cb m)"
  by (auto simp: unchanged_def get_cancellation_token_def erase_callback_def store_callback_def
      HasBeenNotified_def split: option.splits)

lemma manager_at_issued_heap [simp]:
  "manager_at (w\<lparr>heap := h, issued := x\<rparr>) a = manager_at (w\<lparr>heap := h\<rparr>) a"
  by (simp add: manager_at_def)

lemma step_call_view:
  assumes s: "step_call w c rest = Inr (w', stk', r)"
    and m: "manager_at w a = Some m" and m': "manager_at w' a = Some m'"
  shows "unchanged m m' \<or>
         (c = Cancel a \<and> manager_state m = Idle \<and>
          m' = m\<lparr>is_cancelling := True, state := map_option (\<lambda>s. s\<lparr>callbacks := []\<rparr>) (state m)\<rparr> \<and>
          stk' = StartCancel_loop a (registry m) (state m \<noteq> None) # rest)"
proof (cases c)
  case (New po)
  show ?thesis
  proof (cases po)
    case None
    with New s m m' show ?thesis
      by (auto simp: manager_at_append dest: manager_at_length split: if_splits)
  next
    case (Some p)
    with New s m m' show ?thesis
      by (auto simp: with_manager_def case_prod_beta manager_at_set_manager
          split: option.splits if_splits)
  qed
next
  case (Delete b)
  with s m m' show ?thesis by (auto simp: with_manager_def split: option.splits)
next
  case (GetToken b)
  with s m m' show ?thesis
    by (auto simp: with_manager_def case_prod_beta manager_at_set_manager
        split: option.splits if_splits)
next
  case (Register b t cb)
  with s obtain x where x: "manager_at w b = Some x" and t: "t < next_cancellation_token x"
    by (auto simp: with_manager_def RegisterCallback_def split: option.splits if_splits)
  with Register s m m' show ?thesis
    by (auto simp: with_manager_def RegisterCallback_eq[OF t] manager_at_set_manager
        split: if_splits)
next
  case (Deregister b t)
  with s m m' show ?thesis
    by (auto simp: with_manager_def DeregisterCallback_locked_eq manager_at_set_manager
        split: option.splits if_splits ManagerState.splits)
next
  case (TryDeregister b t)
  with s m m' show ?thesis
    by (auto simp: with_manager_def TryDeregisterCallback_eq manager_at_set_manager
        split: option.splits if_splits)
next
  case (Cancel b)
  with s obtain x where x: "manager_at w b = Some x"
    by (auto simp: with_manager_def split: option.splits)
  show ?thesis
  proof (cases "manager_state x = Idle")
    case True
    with Cancel s m m' x show ?thesis
      by (auto simp: with_manager_def StartCancel_locked_Idle manager_at_set_manager
          split: if_splits)
  next
    case False
    with Cancel s m m' x show ?thesis
      by (auto simp: with_manager_def StartCancel_locked_not_Idle)
  qed
next
  case (Query b)
  with s m m' show ?thesis by (auto simp: with_manager_def split: option.splits)
qed

lemma step_view:
  assumes s: "step w (f # rest) = Inr (w', stk', r)"
    and m: "manager_at w a = Some m" and m': "manager_at w' a = Some m'"
  shows "unchanged m m' \<or>
         (f = Call (Cancel a) \<and> manager_state m = Idle \<and>
          m' = m\<lparr>is_cancelling := True, state := map_option (\<lambda>s. s\<lparr>callbacks := []\<rparr>) (state m)\<rparr> \<and>
          stk' = StartCancel_loop a (registry m) (state m \<noteq> None) # rest) \<or>
         (\<exists>n. f = StartCancel_loop a [] n \<and> m' = StartCancel_finish m \<and>
              stk' = (if n then StartCancel_notify a # rest else rest)) \<or>
         (f = StartCancel_notify a \<and> m' = Notify m \<and> stk' = rest)"
proof (cases f)
  case (Call c)
  with step_call_view[OF _ m m', of c rest stk' r] s show ?thesis by auto
next
  case (Ctor_register p t)
  with s obtain x where x: "manager_at w p = Some x" and t: "t < next_cancellation_token x"
    by (auto simp: with_manager_def RegisterCallback_def split: option.splits if_splits)
  with Ctor_register s m m' manager_at_length[OF m] show ?thesis
    by (auto simp: with_manager_def RegisterCallback_eq[OF t] manager_at_def nth_append
        set_manager_def nth_list_update split: if_splits)
next
  case (StartCancel_loop b cbs n)
  with s m m' show ?thesis
    by (cases cbs) (auto simp: with_manager_def manager_at_set_manager
        split: option.splits if_splits)
next
  case (External_body x)
  with s m m' show ?thesis by auto
next
  case (StartCancel_notify b)
  with s m m' show ?thesis
    by (auto simp: with_manager_def manager_at_set_manager split: option.splits if_splits)
next
  case (DeregisterCallback_wait b)
  with s m m' show ?thesis by (auto simp: with_manager_def split: option.splits if_splits)
next
  case (Dtor_state b)
  with s m m' show ?thesis by (auto simp: with_manager_def split: option.splits if_splits)
next
  case (Dtor_free b)
  with s m m' show ?thesis
    by (auto simp: with_manager_def manager_at_free split: option.splits if_splits)
qed

section \<open>IsCancelled\<close>

text \<open>Some thread is in the loop of a pass of the manager \<open>a\<close>, or in a callback that this
  loop has invoked and that has not returned.\<close>

definition in_pass :: "addr \<Rightarrow> frame list list \<Rightarrow> bool" where
  "in_pass a ts = list_ex (list_ex (is_loop a)) ts"

lemma nloops_0_iff: "nloops a ts = 0 \<longleftrightarrow> \<not> in_pass a ts"
  by (auto simp: nloops_def loops_def in_pass_def list_ex_iff filter_empty_conv)

lemma reachable_cstep: "reachable c \<Longrightarrow> cstep c c' \<Longrightarrow> reachable c'"
  by (rule reachable.reach_step)

lemma Cancelled_not_in_pass:
  assumes "consistent (w, ts)" and "manager_at w a = Some m" and "manager_state m = Cancelled"
  shows "\<not> in_pass a ts"
proof -
  from assms(1) have "nloops a ts \<le> cap w a" by (simp add: consistent_def)
  with cap_manager_at[OF assms(2)] assms(3) show ?thesis by (simp add: nloops_0_iff)
qed

lemma is_cancelled_iff: "is_cancelled m \<longleftrightarrow> manager_state m = Cancelled"
  by (simp add: manager_state_def)

text \<open>
  Claim C5. In every configuration the threads can reach: if \<^verbatim>\<open>IsCancelled\<close> of a manager
  is true, no thread is in the loop of a pass of this manager or in a callback invoked
  from it, so every callback the pass captured has returned, and the manager is not
  cancelling any more; if the notification is set, \<^verbatim>\<open>IsCancelled\<close> is true. The step
  that sets the flag is the second critical section of \<^verbatim>\<open>StartCancel\<close>, taken when the
  loop has nothing left and is on top of the stack, and the notification is not yet set
  then; the step that sets the notification is lines 71 to 73, taken when the flag is
  already true. The interleaving is sequentially consistent: the release and acquire
  orderings of the flag are not part of the model.
\<close>

theorem IsCancelled_after_callbacks_returned:
  assumes "reachable (w, ts)" and "manager_at w a = Some m"
  shows "(IsCancelled m \<longrightarrow> \<not> in_pass a ts \<and> \<not> is_cancelling m) \<and>
         (HasBeenNotified m \<longrightarrow> IsCancelled m \<and> \<not> in_pass a ts) \<and>
         (\<forall>i w' stk' r m'.
            i < length ts \<and> step w (ts ! i) = Inr (w', stk', r) \<and> manager_at w' a = Some m' \<and>
            \<not> IsCancelled m \<and> IsCancelled m' \<longrightarrow>
            (\<exists>n rest. ts ! i = StartCancel_loop a [] n # rest) \<and>
            \<not> in_pass a (ts[i := stk']) \<and> \<not> HasBeenNotified m') \<and>
         (\<forall>i w' stk' r m'.
            i < length ts \<and> step w (ts ! i) = Inr (w', stk', r) \<and> manager_at w' a = Some m' \<and>
            \<not> HasBeenNotified m \<and> HasBeenNotified m' \<longrightarrow>
            (\<exists>rest. ts ! i = StartCancel_notify a # rest) \<and> IsCancelled m)"
proof -
  have con: "consistent (w, ts)" by (rule reachable_consistent[OF assms(1)])
  then have mi: "manager_inv m" using assms(2) by (auto simp: consistent_def)
  have 1: "\<not> in_pass a ts \<and> \<not> is_cancelling m" if "IsCancelled m"
    using that Cancelled_not_in_pass[OF con assms(2)] mi
    by (auto simp: IsCancelled_def is_cancelled_iff manager_inv_def split: if_splits)
  have 2: "IsCancelled m \<and> \<not> in_pass a ts" if "HasBeenNotified m"
    using that mi 1 by (auto simp: IsCancelled_def manager_inv_def split: if_splits)
  have 3: "(\<exists>n rest. ts ! i = StartCancel_loop a [] n # rest) \<and>
            \<not> in_pass a (ts[i := stk']) \<and> \<not> HasBeenNotified m'"
    if i: "i < length ts" and s: "step w (ts ! i) = Inr (w', stk', r)"
      and m': "manager_at w' a = Some m'" and c: "\<not> IsCancelled m" "IsCancelled m'"
    for i w' stk' r m'
  proof -
    from s obtain f rest where top: "ts ! i = f # rest" by (cases "ts ! i") auto
    from step_view[OF s[unfolded top] assms(2) m'] c
    obtain n where f: "f = StartCancel_loop a [] n" and fm: "m' = StartCancel_finish m"
      by (auto simp: unchanged_def IsCancelled_def Notify_def split: option.splits)
    have "reachable (w', ts[i := stk'])"
      using assms(1) cstep.thread_step[OF i s] by (rule reachable_cstep)
    from Cancelled_not_in_pass[OF reachable_consistent[OF this] m'] c(2)
    have "\<not> in_pass a (ts[i := stk'])" by (simp add: IsCancelled_def is_cancelled_iff)
    moreover from mi c(1) fm have "\<not> HasBeenNotified m'"
      by (auto simp: manager_inv_def IsCancelled_def StartCancel_finish_def HasBeenNotified_def
          split: if_splits)
    ultimately show ?thesis using top f by simp
  qed
  have 4: "(\<exists>rest. ts ! i = StartCancel_notify a # rest) \<and> IsCancelled m"
    if i: "i < length ts" and s: "step w (ts ! i) = Inr (w', stk', r)"
      and m': "manager_at w' a = Some m'" and c: "\<not> HasBeenNotified m" "HasBeenNotified m'"
    for i w' stk' r m'
  proof -
    from s obtain f rest where top: "ts ! i = f # rest" by (cases "ts ! i") auto
    from step_view[OF s[unfolded top] assms(2) m'] c
    have f: "f = StartCancel_notify a"
      by (auto simp: unchanged_def HasBeenNotified_def StartCancel_finish_def split: option.splits)
    from con i top have "frame_inv w f" by (auto simp: consistent_def dest: nth_mem)
    with f assms(2) have "IsCancelled m" by (simp add: IsCancelled_def is_cancelled_iff)
    with top f show ?thesis by simp
  qed
  from 1 2 3 4 show ?thesis by blast
qed

section \<open>A run of two threads\<close>

text \<open>
  One thread creates a manager, takes a token, registers a callback and calls
  \<^verbatim>\<open>StartCancel\<close>; the other calls \<^verbatim>\<open>DeregisterCallback\<close> while the pass is in flight and
  waits. The configurations below are those of this run.
\<close>

definition trace_manager_idle :: CancellationManager where
  "trace_manager_idle =
     \<lparr>is_cancelling = False, is_cancelled = False, next_cancellation_token = 1,
      state = Some \<lparr>callbacks = [(0, External 7)], cancelled_notification = False\<rparr>,
      parent = None, parent_token = 0\<rparr>"

definition trace_manager_cancelling :: CancellationManager where
  "trace_manager_cancelling =
     \<lparr>is_cancelling = True, is_cancelled = False, next_cancellation_token = 1,
      state = Some \<lparr>callbacks = [], cancelled_notification = False\<rparr>,
      parent = None, parent_token = 0\<rparr>"

definition trace_manager_cancelled :: CancellationManager where
  "trace_manager_cancelled =
     \<lparr>is_cancelling = False, is_cancelled = True, next_cancellation_token = 1,
      state = Some \<lparr>callbacks = [], cancelled_notification = False\<rparr>,
      parent = None, parent_token = 0\<rparr>"

definition trace_manager_notified :: CancellationManager where
  "trace_manager_notified =
     \<lparr>is_cancelling = False, is_cancelled = True, next_cancellation_token = 1,
      state = Some \<lparr>callbacks = [], cancelled_notification = True\<rparr>,
      parent = None, parent_token = 0\<rparr>"

definition trace_world :: "CancellationManager \<Rightarrow> bool \<Rightarrow> world" where
  "trace_world m called =
     \<lparr>heap = [Some m], invoked = (if called then [(0, 0, External 7)] else []), issued = [(0, 0)]\<rparr>"

definition trace_before_cancel :: config where
  "trace_before_cancel = (trace_world trace_manager_idle False, [[Call (Cancel 0)], []])"

definition trace_cancelling :: config where
  "trace_cancelling =
     (trace_world trace_manager_cancelling False,
      [[StartCancel_loop 0 [(0, External 7)] True], [DeregisterCallback_wait 0]])"

definition trace_finishing :: config where
  "trace_finishing =
     (trace_world trace_manager_cancelling True,
      [[StartCancel_loop 0 [] True], [DeregisterCallback_wait 0]])"

definition trace_cancelled :: config where
  "trace_cancelled =
     (trace_world trace_manager_cancelled True,
      [[StartCancel_notify 0], [DeregisterCallback_wait 0]])"

definition trace_notified :: config where
  "trace_notified = (trace_world trace_manager_notified True, [[], [DeregisterCallback_wait 0]])"

lemma reachable_rtranclp: "cstep\<^sup>*\<^sup>* c c' \<Longrightarrow> reachable c \<Longrightarrow> reachable c'"
  by (induction rule: rtranclp_induct) (auto intro: reachable_cstep)

lemma thread_stepI:
  "i < length ts \<Longrightarrow> step w (ts ! i) = Inr (w', stk', r) \<Longrightarrow> ts' = ts[i := stk'] \<Longrightarrow>
   cstep (w, ts) (w', ts')"
  by (auto intro: cstep.thread_step)

lemma begin_callI:
  "i < length ts \<Longrightarrow> ts ! i = [] \<Longrightarrow> ts' = ts[i := [Call c]] \<Longrightarrow> cstep (w, ts) (w, ts')"
  by (auto intro: cstep.begin_call)

lemmas trace_defs =
  trace_world_def trace_manager_idle_def trace_manager_cancelling_def
  trace_manager_cancelled_def trace_manager_notified_def with_manager_def manager_at_def
  set_manager_def

lemma reachable_trace_before_cancel: "reachable trace_before_cancel"
proof -
  let ?e = "\<lparr>heap = [], invoked = [], issued = []\<rparr>"
  let ?a = "\<lparr>heap = [Some new_manager], invoked = [], issued = []\<rparr>"
  let ?b = "\<lparr>heap = [Some (new_manager\<lparr>next_cancellation_token := 1\<rparr>)], invoked = [],
             issued = [(0, 0)]\<rparr>"
  have "reachable (?e, [])" using reachable.reach_initial by (simp add: initial_def)
  then have "reachable (?e, [[]])"
    using cstep.spawn[of ?e "[]"] by (auto intro: reachable_cstep)
  then have "reachable (?e, [[], []])"
    using cstep.spawn[of ?e "[[]]"] by (auto intro: reachable_cstep)
  then have "reachable (?e, [[Call (New None)], []])"
    by (rule reachable_cstep) (rule begin_callI[where i = 0], simp_all)
  then have "reachable (?a, [[], []])"
    by (rule reachable_cstep) (rule thread_stepI[where i = 0], simp_all)
  then have "reachable (?a, [[Call (GetToken 0)], []])"
    by (rule reachable_cstep) (rule begin_callI[where i = 0], simp_all)
  then have "reachable (?b, [[], []])"
    by (rule reachable_cstep)
       (rule thread_stepI[where i = 0],
        simp_all add: with_manager_def manager_at_def set_manager_def get_cancellation_token_def
          new_manager_def)
  then have "reachable (?b, [[Call (Register 0 0 (External 7))], []])"
    by (rule reachable_cstep) (rule begin_callI[where i = 0], simp_all)
  then have "reachable (trace_world trace_manager_idle False, [[], []])"
    by (rule reachable_cstep)
       (rule thread_stepI[where i = 0],
        simp_all add: trace_defs RegisterCallback_def new_manager_def)
  then show ?thesis
    unfolding trace_before_cancel_def
    by (rule reachable_cstep) (rule begin_callI[where i = 0], simp_all)
qed

lemma cstep_trace_before_cancel:
  "cstep trace_before_cancel
     (trace_world trace_manager_cancelling False, [[StartCancel_loop 0 [(0, External 7)] True], []])"
  unfolding trace_before_cancel_def
  by (rule thread_stepI[where i = 0]) (simp_all add: trace_defs StartCancel_locked_def)

lemma steps_trace_cancelling: "cstep\<^sup>*\<^sup>* trace_before_cancel trace_cancelling"
proof -
  let ?w = "trace_world trace_manager_cancelling False"
  have 1: "cstep trace_before_cancel (?w, [[StartCancel_loop 0 [(0, External 7)] True], []])"
    by (rule cstep_trace_before_cancel)
  have 2: "cstep (?w, [[StartCancel_loop 0 [(0, External 7)] True], []])
             (?w, [[StartCancel_loop 0 [(0, External 7)] True], [Call (Deregister 0 0)]])"
    by (rule begin_callI[where i = 1]) simp_all
  have 3: "cstep (?w, [[StartCancel_loop 0 [(0, External 7)] True], [Call (Deregister 0 0)]])
             trace_cancelling"
    unfolding trace_cancelling_def
    by (rule thread_stepI[where i = 1]) (simp_all add: trace_defs DeregisterCallback_locked_def)
  from 1 2 3 show ?thesis by (blast intro: rtranclp.rtrancl_into_rtrancl)
qed

lemma reachable_trace_cancelling: "reachable trace_cancelling"
  using steps_trace_cancelling reachable_trace_before_cancel by (rule reachable_rtranclp)

lemma steps_trace_finishing: "cstep\<^sup>*\<^sup>* trace_cancelling trace_finishing"
proof -
  have 1: "cstep trace_cancelling (trace_world trace_manager_cancelling True,
      [[External_body 7, StartCancel_loop 0 [] True], [DeregisterCallback_wait 0]])"
    unfolding trace_cancelling_def
    by (rule thread_stepI[where i = 0]) (simp_all add: trace_defs)
  have 2: "cstep (trace_world trace_manager_cancelling True,
      [[External_body 7, StartCancel_loop 0 [] True], [DeregisterCallback_wait 0]]) trace_finishing"
    unfolding trace_finishing_def
    by (rule thread_stepI[where i = 0]) simp_all
  from 1 2 show ?thesis by (blast intro: rtranclp.rtrancl_into_rtrancl)
qed

lemma reachable_trace_finishing: "reachable trace_finishing"
  using steps_trace_finishing reachable_trace_cancelling by (rule reachable_rtranclp)

lemma cstep_trace_finishing: "cstep trace_finishing trace_cancelled"
  unfolding trace_finishing_def trace_cancelled_def
  by (rule thread_stepI[where i = 0]) (simp_all add: trace_defs StartCancel_finish_def)

lemma reachable_trace_cancelled: "reachable trace_cancelled"
  using reachable_trace_finishing cstep_trace_finishing by (rule reachable_cstep)

lemma cstep_trace_cancelled: "cstep trace_cancelled trace_notified"
  unfolding trace_cancelled_def trace_notified_def
  by (rule thread_stepI[where i = 0]) (simp_all add: trace_defs Notify_def)

lemma reachable_trace_notified: "reachable trace_notified"
  using reachable_trace_cancelled cstep_trace_cancelled by (rule reachable_cstep)

theorem IsCancelled_after_callbacks_returned_witness:
  "reachable trace_notified \<and>
   manager_at (fst trace_notified) 0 = Some trace_manager_notified \<and>
   IsCancelled trace_manager_notified \<and> HasBeenNotified trace_manager_notified \<and>
   \<not> in_pass 0 (snd trace_notified) \<and> \<not> is_cancelling trace_manager_notified"
proof -
  have r: "reachable (trace_world trace_manager_notified True, [[], [DeregisterCallback_wait 0]])"
    using reachable_trace_notified by (simp add: trace_notified_def)
  have m: "manager_at (trace_world trace_manager_notified True) 0 = Some trace_manager_notified"
    by (simp add: manager_at_def trace_world_def)
  have c: "IsCancelled trace_manager_notified" "HasBeenNotified trace_manager_notified"
    by (simp_all add: IsCancelled_def HasBeenNotified_def trace_manager_notified_def)
  from IsCancelled_after_callbacks_returned[OF r m] c
  show ?thesis using reachable_trace_notified m by (simp add: trace_notified_def)
qed

section \<open>The state of a manager over time\<close>

fun rank :: "ManagerState \<Rightarrow> nat" where
  "rank Idle = 0"
| "rank Cancelling = 1"
| "rank Cancelled = 2"

lemma step_call_heap:
  assumes "step_call w c rest = Inr (w', stk', r)"
  shows "length (heap w) \<le> length (heap w') \<and>
         (\<forall>a < length (heap w). manager_at w a = None \<longrightarrow> manager_at w' a = None)"
proof (cases c)
  case (New po)
  with assms show ?thesis
    by (cases po) (auto simp: with_manager_def case_prod_beta manager_at_def set_manager_def
        nth_append nth_list_update split: option.splits if_splits)
next
  case (Register b t cb)
  with assms show ?thesis
    by (auto simp: with_manager_def manager_at_def set_manager_def nth_list_update
        split: option.splits if_splits sum.splits)
next
  case (Deregister b t)
  with assms show ?thesis
    by (auto simp: with_manager_def manager_at_def set_manager_def nth_list_update
        split: option.splits if_splits prod.splits deregister_outcome.splits)
next
  case (Cancel b)
  with assms show ?thesis
    by (auto simp: with_manager_def manager_at_def set_manager_def nth_list_update
        split: option.splits if_splits prod.splits)
qed (use assms in \<open>auto simp: with_manager_def case_prod_beta manager_at_def set_manager_def
        nth_list_update split: option.splits if_splits\<close>)

lemma step_heap:
  assumes "step w stk = Inr (w', stk', r)"
  shows "length (heap w) \<le> length (heap w') \<and>
         (\<forall>a < length (heap w). manager_at w a = None \<longrightarrow> manager_at w' a = None)"
proof (cases stk)
  case Nil
  with assms show ?thesis by simp
next
  case (Cons f rest)
  show ?thesis
  proof (cases f)
    case (Call c)
    with Cons assms step_call_heap[of w c rest w' stk' r] show ?thesis by simp
  next
    case (StartCancel_loop b cbs n)
    with Cons assms show ?thesis
      by (cases cbs) (auto simp: with_manager_def manager_at_def set_manager_def nth_list_update
          split: option.splits if_splits)
  qed (use Cons assms in \<open>auto simp: with_manager_def manager_at_def set_manager_def
        nth_list_update nth_append split: option.splits if_splits sum.splits\<close>)
qed

lemma cstep_heap:
  assumes "cstep (w, ts) (w', ts')"
  shows "length (heap w) \<le> length (heap w') \<and>
         (\<forall>a < length (heap w). manager_at w a = None \<longrightarrow> manager_at w' a = None)"
  using assms by (cases rule: cstep.cases) (auto dest: step_heap)

lemma unchanged_manager_state: "unchanged m m' \<Longrightarrow> manager_state m' = manager_state m"
  by (simp add: unchanged_def manager_state_def)

lemma cstep_manager_state:
  assumes r: "reachable (w, ts)" and s: "cstep (w, ts) (w', ts')"
    and m: "manager_at w a = Some m" and m': "manager_at w' a = Some m'"
  shows "manager_state m' = manager_state m \<or>
         (manager_state m = Idle \<and> manager_state m' = Cancelling \<and>
          (\<exists>i rest. i < length ts \<and> ts ! i = Call (Cancel a) # rest)) \<or>
         (manager_state m = Cancelling \<and> manager_state m' = Cancelled \<and>
          (\<exists>i n rest. i < length ts \<and> ts ! i = StartCancel_loop a [] n # rest) \<and>
          \<not> in_pass a ts')"
  using s
proof (cases rule: cstep.cases)
  case spawn
  with m m' show ?thesis by simp
next
  case (begin_call i c)
  with m m' show ?thesis by simp
next
  case (callback_call i x rest c)
  with m m' show ?thesis by simp
next
  case (thread_step i stk' x)
  then obtain f rest where top: "ts ! i = f # rest" by (cases "ts ! i") auto
  have con: "consistent (w, ts)" by (rule reachable_consistent[OF r])
  have con': "consistent (w', ts')" by (rule reachable_consistent[OF reachable_cstep[OF r s]])
  from step_view[OF thread_step(3)[unfolded top] m m']
  consider "unchanged m m'"
    | "f = Call (Cancel a)" "manager_state m = Idle" "manager_state m' = Cancelling"
    | n where "f = StartCancel_loop a [] n" "m' = StartCancel_finish m"
    | "m' = Notify m"
    by auto
  then show ?thesis
  proof cases
    case 1
    then show ?thesis by (simp add: unchanged_manager_state)
  next
    case 2
    with thread_step(2) top show ?thesis by auto
  next
    case 3
    from thread_step(2) top have "f # rest \<in> set ts" by (metis nth_mem)
    from loop_frame_Cancelling(2)[OF con this, of f a, OF _ _ m] 3(1)
    have "manager_state m = Cancelling" by simp
    moreover from 3(2) have c: "manager_state m' = Cancelled" by simp
    moreover from Cancelled_not_in_pass[OF con' m' c] have "\<not> in_pass a ts'" .
    ultimately show ?thesis using thread_step(2) top 3(1) by auto
  next
    case 4
    then show ?thesis by simp
  qed
qed

lemma rtranclp_rank:
  assumes "cstep\<^sup>*\<^sup>* c c'" and "reachable c" and "manager_at (fst c) a = Some m"
  shows "a < length (heap (fst c')) \<and>
         (\<forall>m'. manager_at (fst c') a = Some m' \<longrightarrow> rank (manager_state m) \<le> rank (manager_state m'))"
  using assms
proof (induction rule: rtranclp_induct)
  case base
  then show ?case by (auto dest: manager_at_length)
next
  case (step c1 c2)
  obtain w1 ts1 w2 ts2 where c: "c1 = (w1, ts1)" "c2 = (w2, ts2)"
    by (cases c1, cases c2) auto
  from step have ih: "a < length (heap w1)"
    "\<And>m1. manager_at w1 a = Some m1 \<Longrightarrow> rank (manager_state m) \<le> rank (manager_state m1)"
    by (auto simp: c)
  from step(1,4) have r1: "reachable (w1, ts1)" by (auto simp: c dest: reachable_rtranclp)
  from step(2) have s: "cstep (w1, ts1) (w2, ts2)" by (simp add: c)
  from cstep_heap[OF s] ih(1) have l: "a < length (heap w2)"
    and n: "manager_at w1 a = None \<Longrightarrow> manager_at w2 a = None"
    by auto
  have "rank (manager_state m) \<le> rank (manager_state m2)" if m2: "manager_at w2 a = Some m2" for m2
  proof -
    from n m2 obtain m1 where m1: "manager_at w1 a = Some m1" by (cases "manager_at w1 a") auto
    from cstep_manager_state[OF r1 s m1 m2] have "rank (manager_state m1) \<le> rank (manager_state m2)"
      by auto
    with ih(2)[OF m1] show ?thesis by simp
  qed
  with l show ?case by (simp add: c)
qed

text \<open>
  Claim C3. From a configuration the threads can reach, one step of any thread, whatever
  operation it belongs to, leaves the state of a manager as it is, or takes it from Idle
  to Cancelling, and then the step is the first critical section of a \<^verbatim>\<open>StartCancel\<close>
  call on this manager, or takes it from Cancelling to Cancelled, and then the step is
  the second critical section of the pass, whose loop has nothing left, and afterwards no
  thread is in a loop of this manager. Over any number of steps the state never goes
  back: a manager that is cancelled stays cancelled, and one that is not idle never
  becomes idle.
\<close>

theorem manager_state_only_advances:
  assumes "reachable (w, ts)" and "cstep (w, ts) (w', ts')"
    and "manager_at w a = Some m" and "manager_at w' a = Some m'"
  shows "(manager_state m' = manager_state m \<or>
          (manager_state m = Idle \<and> manager_state m' = Cancelling \<and>
           (\<exists>i rest. i < length ts \<and> ts ! i = Call (Cancel a) # rest)) \<or>
          (manager_state m = Cancelling \<and> manager_state m' = Cancelled \<and>
           (\<exists>i n rest. i < length ts \<and> ts ! i = StartCancel_loop a [] n # rest) \<and>
           \<not> in_pass a ts')) \<and>
         (\<forall>c'' m''. cstep\<^sup>*\<^sup>* (w, ts) c'' \<and> manager_at (fst c'') a = Some m'' \<longrightarrow>
            rank (manager_state m) \<le> rank (manager_state m'') \<and>
            (manager_state m = Cancelled \<longrightarrow> manager_state m'' = Cancelled) \<and>
            (manager_state m'' = Idle \<longrightarrow> manager_state m = Idle))"
proof -
  have "rank (manager_state m) \<le> rank (manager_state m'') \<and>
        (manager_state m = Cancelled \<longrightarrow> manager_state m'' = Cancelled) \<and>
        (manager_state m'' = Idle \<longrightarrow> manager_state m = Idle)"
    if "cstep\<^sup>*\<^sup>* (w, ts) c''" and "manager_at (fst c'') a = Some m''" for c'' m''
  proof -
    from rtranclp_rank[OF that(1) assms(1), of a m] assms(3) that(2)
    have "rank (manager_state m) \<le> rank (manager_state m'')" by simp
    then show ?thesis
      by (cases "manager_state m"; cases "manager_state m''") auto
  qed
  with cstep_manager_state[OF assms] show ?thesis by blast
qed

theorem manager_state_only_advances_witness:
  "reachable trace_before_cancel \<and>
   cstep trace_before_cancel
     (trace_world trace_manager_cancelling False, [[StartCancel_loop 0 [(0, External 7)] True], []]) \<and>
   manager_at (fst trace_before_cancel) 0 = Some trace_manager_idle \<and>
   manager_at (trace_world trace_manager_cancelling False) 0 = Some trace_manager_cancelling \<and>
   manager_state trace_manager_idle = Idle \<and>
   manager_state trace_manager_cancelling = Cancelling \<and>
   (\<exists>i rest. i < length (snd trace_before_cancel) \<and>
      snd trace_before_cancel ! i = Call (Cancel 0) # rest) \<and>
   cstep\<^sup>*\<^sup>* trace_before_cancel trace_notified \<and>
   rank (manager_state trace_manager_idle) \<le> rank (manager_state trace_manager_notified)"
proof -
  let ?w = "trace_world trace_manager_idle False"
  let ?ts = "[[Call (Cancel 0)], []]"
  let ?w' = "trace_world trace_manager_cancelling False"
  let ?ts' = "[[StartCancel_loop 0 [(0, External 7)] True], []]"
  have r: "reachable (?w, ?ts)"
    using reachable_trace_before_cancel by (simp add: trace_before_cancel_def)
  have s: "cstep (?w, ?ts) (?w', ?ts')"
    using cstep_trace_before_cancel by (simp add: trace_before_cancel_def)
  have m: "manager_at ?w 0 = Some trace_manager_idle"
    and m': "manager_at ?w' 0 = Some trace_manager_cancelling"
    by (simp_all add: manager_at_def trace_world_def)
  have st: "manager_state trace_manager_idle = Idle"
    "manager_state trace_manager_cancelling = Cancelling"
    by (simp_all add: manager_state_def trace_manager_idle_def trace_manager_cancelling_def)
  have "cstep\<^sup>*\<^sup>* trace_before_cancel trace_notified"
    using steps_trace_cancelling steps_trace_finishing cstep_trace_finishing cstep_trace_cancelled
    by (meson rtranclp.rtrancl_into_rtrancl rtranclp_trans)
  then have star: "cstep\<^sup>*\<^sup>* (?w, ?ts) trace_notified"
    by (simp add: trace_before_cancel_def)
  have mn: "manager_at (fst trace_notified) 0 = Some trace_manager_notified"
    by (simp add: trace_notified_def manager_at_def trace_world_def)
  from manager_state_only_advances[OF r s m m'] st star mn
  have "(\<exists>i rest. i < length ?ts \<and> ?ts ! i = Call (Cancel 0) # rest) \<and>
        rank (manager_state trace_manager_idle) \<le> rank (manager_state trace_manager_notified)"
    by auto
  with r s m m' st star show ?thesis
    by (simp add: trace_before_cancel_def)
qed

section \<open>DeregisterCallback\<close>

text \<open>A thread still owes callbacks to the pass of the manager \<open>a\<close>: its loop has entries
  left, or a callback that the loop invoked has not returned.\<close>

fun outstanding :: "addr \<Rightarrow> frame list \<Rightarrow> bool" where
  "outstanding a [] = False"
| "outstanding a (StartCancel_loop b cbs n # stk) =
     ((b = a \<and> cbs \<noteq> []) \<or> list_ex (is_loop a) stk)"
| "outstanding a (f # stk) = list_ex (is_loop a) stk"

lemma no_state_not_outstanding:
  assumes con: "consistent (w, ts)" and m: "manager_at w a = Some m" and n: "state m = None"
    and stk: "stk \<in> set ts"
  shows "\<not> outstanding a stk"
proof -
  have quiet: "silent g \<and> (\<exists>cbs. g = StartCancel_loop a cbs False \<and> cbs = [])"
    if "g \<in> set stk" and "is_loop a g" for g
  proof -
    from con stk that(1) have "frame_inv w g" by (auto simp: consistent_def)
    with that(2) m n show ?thesis by (cases g) auto
  qed
  from con stk have tl: "\<forall>g \<in> set (tl stk). \<not> silent g"
    by (auto simp: consistent_def stack_inv_def list_all_iff)
  show ?thesis
  proof (cases stk)
    case Nil
    then show ?thesis by simp
  next
    case (Cons f rest)
    have "\<not> list_ex (is_loop a) rest"
    proof
      assume "list_ex (is_loop a) rest"
      then obtain g where g: "g \<in> set rest" "is_loop a g" by (auto simp: list_ex_iff)
      with quiet[of g] Cons have "silent g" by simp
      with tl g(1) Cons show False by simp
    qed
    moreover have "cbs = []" if "f = StartCancel_loop a cbs k" for cbs k
      using quiet[of f] that Cons by simp
    ultimately show ?thesis using Cons by (cases f) auto
  qed
qed

lemma step_Deregister:
  assumes "manager_at w a = Some m"
  shows "step w (Call (Deregister a token) # stk) =
           (case manager_state m of
              Cancelled \<Rightarrow> Inr (w, stk, Some (RBool False))
            | Cancelling \<Rightarrow>
                if state m = None then Inr (w, stk, Some (RBool False))
                else Inr (w, DeregisterCallback_wait a # stk, None)
            | Idle \<Rightarrow> Inr (set_manager a (erase_callback token m) w, stk, Some (RBool True)))"
  using assms
  by (auto simp: with_manager_def DeregisterCallback_locked_eq set_manager_same
      split: ManagerState.splits)

lemma step_wait:
  assumes "manager_at w a = Some m"
  shows "step w (DeregisterCallback_wait a # stk) =
           (if HasBeenNotified m then Inr (w, stk, Some (RBool False)) else Inl Blocked)"
  using assms by (simp add: with_manager_def)

text \<open>
  Claim C4. In every configuration the threads can reach, \<^verbatim>\<open>DeregisterCallback(token)\<close>
  goes by the state of the manager. Cancelled: it returns false in one step and the store
  is unchanged. Idle: it erases the entry of the token (an absent token erases nothing,
  the other entries and the rest of the manager stay) and returns true. Cancelling, with a
  registry block: it changes nothing and goes on to wait for the notification of the
  pass; the notification is not set then, the wait takes no step while it is not set (a
  thread alone would block), and once it is set the wait returns false, and then the
  manager is cancelled and no thread is in the loop of the pass or in a callback invoked
  from it. Cancelling, without a registry block: there is no notification, the pass
  captured no callback and no thread owes it one, and the call returns false in one step.
\<close>

theorem DeregisterCallback_by_state:
  assumes "reachable (w, ts)" and "manager_at w a = Some m"
  shows "step w (Call (Deregister a token) # stk) =
           (case manager_state m of
              Cancelled \<Rightarrow> Inr (w, stk, Some (RBool False))
            | Cancelling \<Rightarrow>
                if state m = None then Inr (w, stk, Some (RBool False))
                else Inr (w, DeregisterCallback_wait a # stk, None)
            | Idle \<Rightarrow> Inr (set_manager a (erase_callback token m) w, stk, Some (RBool True))) \<and>
         step w (DeregisterCallback_wait a # stk) =
           (if HasBeenNotified m then Inr (w, stk, Some (RBool False)) else Inl Blocked) \<and>
         (HasBeenNotified m \<longrightarrow> manager_state m = Cancelled \<and> \<not> in_pass a ts) \<and>
         (manager_state m = Cancelling \<longrightarrow> \<not> HasBeenNotified m) \<and>
         (manager_state m = Cancelling \<and> state m = None \<longrightarrow>
            (\<forall>stk' \<in> set ts. \<not> outstanding a stk')) \<and>
         (manager_state m = Cancelling \<and> state m \<noteq> None \<longrightarrow>
            run (Deregister a token) w = Inl Blocked) \<and>
         registry (erase_callback token m) = AList.delete token (registry m) \<and>
         map_of (registry (erase_callback token m)) token = None \<and>
         (\<forall>t. t \<noteq> token \<longrightarrow>
            map_of (registry (erase_callback token m)) t = map_of (registry m) t) \<and>
         manager_state (erase_callback token m) = manager_state m \<and>
         next_cancellation_token (erase_callback token m) = next_cancellation_token m"
proof -
  have con: "consistent (w, ts)" by (rule reachable_consistent[OF assms(1)])
  then have mi: "manager_inv m" using assms(2) by (auto simp: consistent_def)
  have n: "manager_state m = Cancelled \<and> \<not> in_pass a ts" if "HasBeenNotified m"
  proof -
    from mi that have "manager_state m = Cancelled"
      by (auto simp: manager_inv_def is_cancelled_iff split: if_splits)
    with Cancelled_not_in_pass[OF con assms(2)] show ?thesis by simp
  qed
  have c: "\<not> HasBeenNotified m" if "manager_state m = Cancelling"
    using n that by auto
  have o: "\<forall>stk' \<in> set ts. \<not> outstanding a stk'" if "state m = None"
    using no_state_not_outstanding[OF con assms(2) that] by blast
  have b: "run (Deregister a token) w = Inl Blocked"
    if "manager_state m = Cancelling" "state m \<noteq> None"
  proof -
    have "step w [Call (Deregister a token)] = Inr (w, [DeregisterCallback_wait a], None)"
      using step_Deregister[OF assms(2), of token "[]"] that by simp
    from exec_continue[OF this] have "run (Deregister a token) w = exec w [DeregisterCallback_wait a]"
      by (simp add: run_def)
    also have "\<dots> = Inl Blocked"
      using step_wait[OF assms(2), of "[]"] c[OF that(1)] by (intro exec_stuck) simp
    finally show ?thesis .
  qed
  have e: "next_cancellation_token (erase_callback token m) = next_cancellation_token m"
    by (simp add: erase_callback_def split: option.splits)
  from step_Deregister[OF assms(2), of token stk] step_wait[OF assms(2), of stk] n c o b e
  show ?thesis
    by (simp add: registry_erase_callback delete_conv)
qed

theorem DeregisterCallback_by_state_witness:
  "reachable trace_cancelling \<and>
   manager_at (fst trace_cancelling) 0 = Some trace_manager_cancelling \<and>
   manager_state trace_manager_cancelling = Cancelling \<and>
   step (fst trace_cancelling) [Call (Deregister 0 0)] =
     Inr (fst trace_cancelling, [DeregisterCallback_wait 0], None) \<and>
   step (fst trace_cancelling) [DeregisterCallback_wait 0] = Inl Blocked \<and>
   reachable trace_notified \<and>
   manager_at (fst trace_notified) 0 = Some trace_manager_notified \<and>
   step (fst trace_notified) [DeregisterCallback_wait 0] =
     Inr (fst trace_notified, [], Some (RBool False)) \<and>
   \<not> in_pass 0 (snd trace_notified)"
proof -
  let ?w = "trace_world trace_manager_cancelling False"
  let ?ts = "[[StartCancel_loop 0 [(0, External 7)] True], [DeregisterCallback_wait 0]]"
  let ?v = "trace_world trace_manager_notified True"
  let ?us = "[[], [DeregisterCallback_wait 0]]"
  have r: "reachable (?w, ?ts)"
    using reachable_trace_cancelling by (simp add: trace_cancelling_def)
  have m: "manager_at ?w 0 = Some trace_manager_cancelling"
    by (simp add: manager_at_def trace_world_def)
  have s: "manager_state trace_manager_cancelling = Cancelling"
    "state trace_manager_cancelling \<noteq> None" "\<not> HasBeenNotified trace_manager_cancelling"
    by (simp_all add: manager_state_def HasBeenNotified_def trace_manager_cancelling_def)
  have r': "reachable (?v, ?us)"
    using reachable_trace_notified by (simp add: trace_notified_def)
  have m': "manager_at ?v 0 = Some trace_manager_notified"
    by (simp add: manager_at_def trace_world_def)
  have s': "HasBeenNotified trace_manager_notified"
    by (simp add: HasBeenNotified_def trace_manager_notified_def)
  from DeregisterCallback_by_state[OF r m, of 0 "[]"] s
  have 1: "step ?w [Call (Deregister 0 0)] = Inr (?w, [DeregisterCallback_wait 0], None)"
    "step ?w [DeregisterCallback_wait 0] = Inl Blocked"
    by simp_all
  from DeregisterCallback_by_state[OF r' m', of 0 "[]"] s'
  have 2: "step ?v [DeregisterCallback_wait 0] = Inr (?v, [], Some (RBool False))"
    "\<not> in_pass 0 ?us"
    by simp_all
  from 1 2 r m s r' m' show ?thesis
    by (simp add: trace_cancelling_def trace_notified_def)
qed

section \<open>Tokens\<close>

text \<open>The tokens a manager has handed out, in the order of the calls.\<close>

definition issued_by :: "addr \<Rightarrow> world \<Rightarrow> CancellationToken list" where
  "issued_by a w = map snd (filter (\<lambda>e. fst e = a) (issued w))"

definition tokens_ok :: "world \<Rightarrow> bool" where
  "tokens_ok w =
     (\<forall>a. sorted_wrt (<) (issued_by a w) \<and>
          (case manager_at w a of
             Some m \<Rightarrow> \<forall>t \<in> set (issued_by a w). t < next_cancellation_token m
           | None \<Rightarrow> a < length (heap w) \<or> issued_by a w = []))"

lemma tokens_okI:
  assumes "\<And>a. sorted_wrt (<) (issued_by a w)"
    and "\<And>a m t. manager_at w a = Some m \<Longrightarrow> t \<in> set (issued_by a w) \<Longrightarrow> t < next_cancellation_token m"
    and "\<And>a. manager_at w a = None \<Longrightarrow> a < length (heap w) \<or> issued_by a w = []"
  shows "tokens_ok w"
  using assms unfolding tokens_ok_def by (auto split: option.splits)

lemma tokens_okD:
  assumes "tokens_ok w"
  shows "sorted_wrt (<) (issued_by a w)"
    and "manager_at w a = Some m \<Longrightarrow> t \<in> set (issued_by a w) \<Longrightarrow> t < next_cancellation_token m"
    and "manager_at w a = None \<Longrightarrow> a < length (heap w) \<or> issued_by a w = []"
proof -
  from assms have a: "sorted_wrt (<) (issued_by a w) \<and>
          (case manager_at w a of
             Some m \<Rightarrow> \<forall>t \<in> set (issued_by a w). t < next_cancellation_token m
           | None \<Rightarrow> a < length (heap w) \<or> issued_by a w = [])"
    unfolding tokens_ok_def by blast
  then show "sorted_wrt (<) (issued_by a w)" by simp
  from a show "t < next_cancellation_token m" if "manager_at w a = Some m" "t \<in> set (issued_by a w)"
    using that by simp
  from a show "a < length (heap w) \<or> issued_by a w = []" if "manager_at w a = None"
    using that by simp
qed

text \<open>A step that hands out no token.\<close>

lemma tokens_ok_keep:
  assumes ok: "tokens_ok w" and i: "issued w' = issued w"
    and l: "length (heap w) \<le> length (heap w')"
    and k: "\<And>a m'. manager_at w' a = Some m' \<Longrightarrow>
              (\<exists>m. manager_at w a = Some m \<and> next_cancellation_token m \<le> next_cancellation_token m') \<or>
              (manager_at w a = None \<and> length (heap w) \<le> a)"
  shows "tokens_ok w'"
proof (rule tokens_okI)
  have ib: "issued_by a w' = issued_by a w" for a by (simp add: issued_by_def i)
  show "sorted_wrt (<) (issued_by a w')" for a
    using tokens_okD(1)[OF ok] by (simp add: ib)
  show "t < next_cancellation_token m'" if "manager_at w' a = Some m'" "t \<in> set (issued_by a w')" for a m' t
  proof -
    from k[OF that(1)] show ?thesis
    proof
      assume "\<exists>m. manager_at w a = Some m \<and> next_cancellation_token m \<le> next_cancellation_token m'"
      then obtain m where m: "manager_at w a = Some m"
        "next_cancellation_token m \<le> next_cancellation_token m'" by blast
      from tokens_okD(2)[OF ok m(1), of t] that(2) m(2) show ?thesis by (simp add: ib)
    next
      assume "manager_at w a = None \<and> length (heap w) \<le> a"
      with tokens_okD(3)[OF ok, of a] that(2) show ?thesis by (simp add: ib)
    qed
  qed
  show "a < length (heap w') \<or> issued_by a w' = []" if "manager_at w' a = None" for a
  proof (cases "a < length (heap w')")
    case False
    with l have "manager_at w a = None" "\<not> a < length (heap w)" by (auto simp: manager_at_def)
    with tokens_okD(3)[OF ok, of a] show ?thesis by (simp add: ib)
  qed simp
qed

text \<open>A step that hands out the next token of a manager.\<close>

lemma tokens_ok_issue:
  assumes ok: "tokens_ok w" and m: "manager_at w a = Some m"
  shows "tokens_ok ((set_manager a (snd (get_cancellation_token m)) w)
                      \<lparr>issued := issued w @ [(a, next_cancellation_token m)]\<rparr>)"
proof (rule tokens_okI)
  let ?w = "(set_manager a (snd (get_cancellation_token m)) w)
              \<lparr>issued := issued w @ [(a, next_cancellation_token m)]\<rparr>"
  have ib: "issued_by b ?w = issued_by b w @ (if b = a then [next_cancellation_token m] else [])" for b
    by (simp add: issued_by_def)
  have at: "manager_at (set_manager a (snd (get_cancellation_token m)) w) b =
      (if b = a then Some (snd (get_cancellation_token m)) else manager_at w b)" for b
    using m by (simp add: manager_at_set_manager manager_at_length)
  show "sorted_wrt (<) (issued_by b ?w)" for b
    using tokens_okD(1)[OF ok, of b] tokens_okD(2)[OF ok m]
    by (auto simp: ib sorted_wrt_append)
  show "t < next_cancellation_token m'" if "manager_at ?w b = Some m'" "t \<in> set (issued_by b ?w)" for b m' t
  proof (cases "b = a")
    case True
    with that(1) have m': "next_cancellation_token m' = next_cancellation_token m + 1"
      by (auto simp: at)
    from that(2) True have "t \<in> set (issued_by a w) \<or> t = next_cancellation_token m"
      by (auto simp: ib)
    with tokens_okD(2)[OF ok m, of t] m' show ?thesis by auto
  next
    case False
    with that have "manager_at w b = Some m'" "t \<in> set (issued_by b w)"
      by (simp_all add: at ib)
    then show ?thesis by (rule tokens_okD(2)[OF ok])
  qed
  show "b < length (heap ?w) \<or> issued_by b ?w = []" if "manager_at ?w b = None" for b
    using that tokens_okD(3)[OF ok, of b] by (auto simp: ib at split: if_splits)
qed

lemma tokens_ok_set_manager:
  assumes "tokens_ok w" and "manager_at w b = Some x"
    and "next_cancellation_token x \<le> next_cancellation_token x'"
  shows "tokens_ok (set_manager b x' w)"
  using assms(1)
proof (rule tokens_ok_keep)
  show "(\<exists>m. manager_at w a = Some m \<and> next_cancellation_token m \<le> next_cancellation_token m') \<or>
        (manager_at w a = None \<and> length (heap w) \<le> a)"
    if "manager_at (set_manager b x' w) a = Some m'" for a m'
    using that assms(2,3) by (auto simp: manager_at_set_manager split: if_splits)
qed simp_all

lemma tokens_ok_append:
  assumes "tokens_ok w"
  shows "tokens_ok (w\<lparr>heap := heap w @ [Some m]\<rparr>)"
  using assms
proof (rule tokens_ok_keep)
  show "(\<exists>x. manager_at w a = Some x \<and> next_cancellation_token x \<le> next_cancellation_token m') \<or>
        (manager_at w a = None \<and> length (heap w) \<le> a)"
    if "manager_at (w\<lparr>heap := heap w @ [Some m]\<rparr>) a = Some m'" for a m'
    using that by (auto simp: manager_at_append manager_at_beyond split: if_splits)
qed simp_all

lemma tokens_ok_free:
  assumes "tokens_ok w"
  shows "tokens_ok (w\<lparr>heap := (heap w)[a := None]\<rparr>)"
  using assms
proof (rule tokens_ok_keep)
  show "(\<exists>x. manager_at w b = Some x \<and> next_cancellation_token x \<le> next_cancellation_token m') \<or>
        (manager_at w b = None \<and> length (heap w) \<le> b)"
    if "manager_at (w\<lparr>heap := (heap w)[a := None]\<rparr>) b = Some m'" for b m'
    using that by (auto simp: manager_at_free split: if_splits)
qed simp_all

lemma issued_by_invoked [simp]: "issued_by a (w\<lparr>invoked := x\<rparr>) = issued_by a w"
  by (simp add: issued_by_def)

lemma tokens_ok_invoked [simp]: "tokens_ok (w\<lparr>invoked := x\<rparr>) = tokens_ok w"
  by (simp add: tokens_ok_def cong: option.case_cong)

lemma next_simps [simp]:
  "next_cancellation_token (store_callback t cb m) = next_cancellation_token m"
  "next_cancellation_token (erase_callback t m) = next_cancellation_token m"
  "next_cancellation_token (StartCancel_finish m) = next_cancellation_token m"
  "next_cancellation_token (Notify m) = next_cancellation_token m"
  by (simp_all add: store_callback_def erase_callback_def StartCancel_finish_def Notify_def
      split: option.splits)

lemma step_call_tokens_ok:
  assumes ok: "tokens_ok w" and s: "step_call w c rest = Inr (w', stk', r)"
  shows "tokens_ok w'"
proof (cases c)
  case (New po)
  show ?thesis
  proof (cases po)
    case None
    with New s tokens_ok_append[OF ok, of new_manager] show ?thesis by auto
  next
    case (Some p)
    with New s obtain pm where pm: "manager_at w p = Some pm"
      by (auto simp: with_manager_def split: option.splits)
    with New Some s tokens_ok_issue[OF ok pm] show ?thesis
      by (auto simp: with_manager_def case_prod_beta)
  qed
next
  case (Delete a)
  with s ok show ?thesis by (auto simp: with_manager_def split: option.splits)
next
  case (GetToken a)
  with s obtain m where m: "manager_at w a = Some m"
    by (auto simp: with_manager_def split: option.splits)
  with GetToken s tokens_ok_issue[OF ok m] show ?thesis
    by (auto simp: with_manager_def case_prod_beta)
next
  case (Register a t cb)
  with s obtain m where m: "manager_at w a = Some m" and t: "t < next_cancellation_token m"
    by (auto simp: with_manager_def RegisterCallback_def split: option.splits if_splits)
  from tokens_ok_set_manager[OF ok m, of "if manager_state m = Idle then store_callback t cb m else m"]
  have "tokens_ok (set_manager a (if manager_state m = Idle then store_callback t cb m else m) w)"
    by simp
  with Register s m show ?thesis
    by (auto simp: with_manager_def RegisterCallback_eq[OF t])
next
  case (Deregister a t)
  with s obtain m where m: "manager_at w a = Some m"
    by (auto simp: with_manager_def split: option.splits)
  from tokens_ok_set_manager[OF ok m, of "erase_callback t m"]
  have "tokens_ok (set_manager a (erase_callback t m) w)" by simp
  with Deregister s m ok show ?thesis
    by (auto simp: with_manager_def DeregisterCallback_locked_eq set_manager_same
        split: ManagerState.splits if_splits)
next
  case (TryDeregister a t)
  with s obtain m where m: "manager_at w a = Some m"
    by (auto simp: with_manager_def split: option.splits)
  from tokens_ok_set_manager[OF ok m, of "erase_callback t m"]
  have "tokens_ok (set_manager a (erase_callback t m) w)" by simp
  with TryDeregister s m ok show ?thesis
    by (auto simp: with_manager_def TryDeregisterCallback_eq set_manager_same split: if_splits)
next
  case (Cancel a)
  with s obtain m where m: "manager_at w a = Some m"
    by (auto simp: with_manager_def split: option.splits)
  let ?m = "m\<lparr>is_cancelling := True, state := map_option (\<lambda>s. s\<lparr>callbacks := []\<rparr>) (state m)\<rparr>"
  from tokens_ok_set_manager[OF ok m, of ?m] have "tokens_ok (set_manager a ?m w)" by simp
  with Cancel s m ok show ?thesis
    by (cases "manager_state m = Idle")
       (auto simp: with_manager_def StartCancel_locked_Idle StartCancel_locked_not_Idle)
next
  case (Query a)
  with s ok show ?thesis by (auto simp: with_manager_def split: option.splits)
qed

lemma step_tokens_ok:
  assumes ok: "tokens_ok w" and s: "step w stk = Inr (w', stk', r)"
  shows "tokens_ok w'"
proof (cases stk)
  case Nil
  with s show ?thesis by simp
next
  case (Cons f rest)
  show ?thesis
  proof (cases f)
    case (Call c)
    with Cons s step_call_tokens_ok[OF ok, of c rest w' stk' r] show ?thesis by simp
  next
    case (Ctor_register p t)
    with Cons s obtain pm where pm: "manager_at w p = Some pm" and t: "t < next_cancellation_token pm"
      by (auto simp: with_manager_def RegisterCallback_def split: option.splits if_splits)
    let ?pm = "if manager_state pm = Idle then store_callback t (CancelChild (length (heap w))) pm else pm"
    from tokens_ok_set_manager[OF ok pm, of ?pm] have "tokens_ok (set_manager p ?pm w)" by simp
    from tokens_ok_append[OF this, of "child_manager p t (manager_state pm = Idle)"]
    show ?thesis using Ctor_register Cons s pm
      by (auto simp: with_manager_def RegisterCallback_eq[OF t] child_manager_def)
  next
    case (StartCancel_loop a cbs n)
    show ?thesis
    proof (cases cbs)
      case Nil
      with StartCancel_loop Cons s obtain m where m: "manager_at w a = Some m"
        by (auto simp: with_manager_def split: option.splits)
      from tokens_ok_set_manager[OF ok m, of "StartCancel_finish m"]
      show ?thesis using Nil StartCancel_loop Cons s m by (auto simp: with_manager_def)
    next
      case (Cons kv cbs')
      with StartCancel_loop \<open>stk = f # rest\<close> s ok show ?thesis by auto
    qed
  next
    case (External_body x)
    with Cons s ok show ?thesis by auto
  next
    case (StartCancel_notify a)
    with Cons s obtain m where m: "manager_at w a = Some m"
      by (auto simp: with_manager_def split: option.splits)
    from tokens_ok_set_manager[OF ok m, of "Notify m"]
    show ?thesis using StartCancel_notify Cons s m by (auto simp: with_manager_def)
  next
    case (DeregisterCallback_wait a)
    with Cons s ok show ?thesis by (auto simp: with_manager_def split: option.splits if_splits)
  next
    case (Dtor_state a)
    with Cons s ok show ?thesis by (auto simp: with_manager_def split: option.splits if_splits)
  next
    case (Dtor_free a)
    with Cons s tokens_ok_free[OF ok, of a] show ?thesis
      by (auto simp: with_manager_def split: option.splits)
  qed
qed

lemma reachable_tokens_ok: "reachable c \<Longrightarrow> tokens_ok (fst c)"
proof (induction rule: reachable.induct)
  case reach_initial
  show ?case by (simp add: initial_def tokens_ok_def issued_by_def manager_at_def)
next
  case (reach_step c c')
  from reach_step(2,3) show ?case
    by (cases rule: cstep.cases) (auto dest: step_tokens_ok)
qed

text \<open>
  Claim C9. In every configuration the threads can reach, the tokens a manager has handed
  out over its life, to \<^verbatim>\<open>get_cancellation_token\<close> calls and to the constructors of its
  children, are strictly increasing, so no two are equal, and all are below its counter.
  A call returns the counter and increments it, so the next token is above all earlier
  ones; the call returns in one step whatever the state of the manager.
\<close>

theorem tokens_strictly_increasing:
  assumes "reachable (w, ts)"
  shows "sorted_wrt (<) (issued_by a w) \<and> distinct (issued_by a w) \<and>
         (\<forall>m. manager_at w a = Some m \<longrightarrow>
            (\<forall>t \<in> set (issued_by a w). t < next_cancellation_token m) \<and>
            get_cancellation_token m =
              (next_cancellation_token m,
               m\<lparr>next_cancellation_token := next_cancellation_token m + 1\<rparr>) \<and>
            (\<forall>stk. \<exists>w'.
               step w (Call (GetToken a) # stk) =
                 Inr (w', stk, Some (RToken (next_cancellation_token m))) \<and>
               issued_by a w' = issued_by a w @ [next_cancellation_token m] \<and>
               manager_at w' a =
                 Some (m\<lparr>next_cancellation_token := next_cancellation_token m + 1\<rparr>)))"
proof -
  from reachable_tokens_ok[OF assms] have ok: "tokens_ok w" by simp
  have s: "sorted_wrt (<) (issued_by a w)" by (rule tokens_okD(1)[OF ok])
  then have d: "distinct (issued_by a w)" by (simp add: strict_sorted_iff)
  have g: "\<exists>w'. step w (Call (GetToken a) # stk) =
                 Inr (w', stk, Some (RToken (next_cancellation_token m))) \<and>
               issued_by a w' = issued_by a w @ [next_cancellation_token m] \<and>
               manager_at w' a =
                 Some (m\<lparr>next_cancellation_token := next_cancellation_token m + 1\<rparr>)"
    if "manager_at w a = Some m" for m stk
    using that
    by (simp add: with_manager_def get_cancellation_token_def issued_by_def
        manager_at_set_manager manager_at_length)
  from s d g tokens_okD(2)[OF ok] show ?thesis
    by (auto simp: get_cancellation_token_def)
qed

theorem tokens_strictly_increasing_witness:
  "reachable trace_notified \<and> issued_by 0 (fst trace_notified) = [0] \<and>
   manager_at (fst trace_notified) 0 = Some trace_manager_notified \<and>
   next_cancellation_token trace_manager_notified = 1 \<and>
   sorted_wrt (<) (issued_by 0 (fst trace_notified)) \<and>
   (\<exists>w'. step (fst trace_notified) [Call (GetToken 0)] = Inr (w', [], Some (RToken 1)) \<and>
         issued_by 0 w' = [0, 1])"
proof -
  let ?v = "trace_world trace_manager_notified True"
  have r: "reachable (?v, [[], [DeregisterCallback_wait 0]])"
    using reachable_trace_notified by (simp add: trace_notified_def)
  have m: "manager_at ?v 0 = Some trace_manager_notified"
    by (simp add: manager_at_def trace_world_def)
  have i: "issued_by 0 ?v = [0]" by (simp add: issued_by_def trace_world_def)
  have n: "next_cancellation_token trace_manager_notified = 1"
    by (simp add: trace_manager_notified_def)
  from tokens_strictly_increasing[OF r, of 0] m
  have "\<exists>w'. step ?v [Call (GetToken 0)] =
                 Inr (w', [], Some (RToken (next_cancellation_token trace_manager_notified))) \<and>
               issued_by 0 w' = issued_by 0 ?v @ [next_cancellation_token trace_manager_notified]"
    by blast
  with r m i n show ?thesis
    by (simp add: trace_notified_def)
qed

end
